theory Spec2Isabelle
  imports Main
begin

section \<open>MastodonTagFinder: byte buffers and Python's \<open>bytes.find\<close>\<close>

text \<open>
  The program scans raw \<open>bytes\<close> objects. A byte buffer is a list of 8-bit characters;
  offsets are Python integers, so they are \<open>int\<close> (an offset may be negative, and
  \<open>-1\<close> is the "not found" result of \<open>find\<close>).
\<close>

type_synonym bytes = string

definition dq :: char where
  "dq = CHR 0x22"

text \<open>
  Python clips the \<open>start\<close> and \<open>end\<close> arguments of \<open>find\<close> the way slice bounds are
  clipped: a negative bound counts from the end of the buffer, and an \<open>end\<close> beyond the
  buffer is the length of the buffer. \<open>n\<close> is the length of the buffer.
\<close>

definition start_index :: "int \<Rightarrow> int \<Rightarrow> int" where
  "start_index start n = (if start < 0 then max 0 (start + n) else start)"

definition end_index :: "int \<Rightarrow> int \<Rightarrow> int" where
  "end_index end n = (if end > n then n else if end < 0 then max 0 (end + n) else end)"

text \<open>\<open>index_of sub xs\<close>: the lowest position at which \<open>sub\<close> occurs in \<open>xs\<close>.\<close>

fun index_of :: "'a list \<Rightarrow> 'a list \<Rightarrow> nat option" where
  "index_of sub [] = (if sub = [] then Some 0 else None)"
| "index_of sub (x # xs) =
     (if take (length sub) (x # xs) = sub then Some 0
      else map_option Suc (index_of sub xs))"

text \<open>
  \<open>data.find(sub, start, end)\<close>: the lowest index of an occurrence of \<open>sub\<close> that lies
  within \<open>data[start:end]\<close>, or \<open>-1\<close>.
\<close>

definition find_bytes :: "'a list \<Rightarrow> 'a list \<Rightarrow> int \<Rightarrow> int \<Rightarrow> int" where
  "find_bytes data sub start end =
     (let n = int (length data);
          e = end_index end n;
          s = start_index start n
      in if e - s < int (length sub) then - 1
         else (case index_of sub (take (nat (e - s)) (drop (nat s) data)) of
                 None \<Rightarrow> - 1
               | Some i \<Rightarrow> s + int i))"

text \<open>\<open>data.find(sub, start)\<close>: the search runs to the end of the buffer.\<close>

definition find_from :: "'a list \<Rightarrow> 'a list \<Rightarrow> int \<Rightarrow> int" where
  "find_from data sub start = find_bytes data sub start (int (length data))"

text \<open>\<open>data[lo:hi]\<close>, with both bounds clipped into the buffer.\<close>

definition slice_index :: "int \<Rightarrow> int \<Rightarrow> int" where
  "slice_index i n = (if i < 0 then max 0 (i + n) else min i n)"

definition slice :: "'a list \<Rightarrow> int \<Rightarrow> int \<Rightarrow> 'a list" where
  "slice data lo hi =
     (let n = int (length data);
          l = slice_index lo n;
          h = slice_index hi n
      in take (nat (h - l)) (drop (nat l) data))"

section \<open>The field extractor\<close>

text \<open>
  \<open>getfield(data, field, offset=0)\<close> returns the pair \<open>(None, None)\<close> or a pair of a
  value and the offset behind it; the model returns \<open>None\<close> for the former.
\<close>

definition getfield :: "bytes \<Rightarrow> bytes \<Rightarrow> int \<Rightarrow> (bytes \<times> int) option" where
  "getfield data field offset =
     (let field_start = find_from data field offset
      in if field_start = - 1 then None
         else if find_bytes data ''null'' (field_start + int (length field))
                   (field_start + int (length field) + 4) \<noteq> - 1 then None
         else
           let value_start = find_from data [dq] (field_start + int (length field))
           in if value_start = - 1 then None
              else
                let value_end = find_from data [dq] (value_start + 1)
                in if value_end = - 1 then None
                   else Some (slice data (value_start + 1) value_end, value_end + 1))"


text \<open>
  \<open>getlist(data, field)\<close>. The \<open>while True\<close> loop has one exit, taken when no further
  \<open>{\<close> is found before \<open>list_end\<close>; nothing in it bounds the number of rounds, so
  the loop is a partial function: the result \<open>None\<close> of the model means that the loop
  never reaches its \<open>break\<close>. An element of the returned list is \<open>None\<close> where
  \<open>getfield\<close> returned \<open>(None, None)\<close> for the entry.
\<close>

partial_function (option) getlist_loop ::
  "bytes \<Rightarrow> int \<Rightarrow> int \<Rightarrow> bytes option list \<Rightarrow> bytes option list option" where
  "getlist_loop data list_end ptr items =
     (let entry_start = find_bytes data ''{'' ptr list_end
      in if entry_start = - 1 then Some items
         else
           let ptr1 = entry_start + 1;
               entry_end = find_bytes data ''}'' ptr1 list_end;
               ptr2 = entry_end + 1;
               tagname = map_option fst
                 (getfield (slice data entry_start entry_end) ''\"name\":'' 0)
           in getlist_loop data list_end ptr2 (items @ [tagname]))"

declare getlist_loop.simps [code]

definition getlist :: "bytes \<Rightarrow> bytes \<Rightarrow> bytes option list option" where
  "getlist data field =
     (let field_start = find_from data field 0
      in if field_start = - 1 then Some []
         else
           let empty = find_bytes data ''[]'' (field_start + int (length field))
                         (field_start + int (length field) + 3)
           in if empty \<noteq> - 1 then Some []
              else
                let list_start = find_from data ''['' (field_start + int (length field));
                    list_end = find_from data '']'' (list_start + 1);
                    ptr = list_start + 1
                in getlist_loop data list_end ptr [])"

section \<open>Users, the dedup cache and the ingest pipeline\<close>

text \<open>
  The exceptions the modelled code can raise. \<open>ClientError\<close> stands for whatever the
  HTTP client raises when a request fails.
\<close>

datatype error = AttributeError | KeyError | UnicodeDecodeError | ClientError

text \<open>
  A \<open>UserConnection\<close>: \<open>tags\<close> is what \<open>followed_tags\<close> returned last (a set, or Python's
  \<open>None\<close>), \<open>posts_queue\<close> is the unbounded \<open>asyncio.Queue\<close> \<open>self.posts\<close>, oldest
  entry first. Python's \<open>str\<close> is the type parameter \<open>'s\<close>.
\<close>

record 's user =
  server :: string
  tags :: "'s set option"
  posts_queue :: "bytes list"

text \<open>The module's global variables.\<close>

record 's state =
  post_count :: int
  servers :: "bytes \<rightharpoonup> int"
  total :: int
  posts :: "bytes \<rightharpoonup> bytes \<times> bytes list"
  posts_order :: "bytes list"
  users :: "'s user list"

definition DUPLICATE_HISTORY_LENGTH :: int where
  "DUPLICATE_HISTORY_LENGTH = 1000"

text \<open>
  \<open>queue_post(tags, url)\<close>. \<open>self.tags.intersection\<close> raises when \<open>self.tags\<close> is
  \<open>None\<close>; the log line decodes \<open>url\<close> before the \<open>put\<close>. \<open>decode b\<close> is \<open>b.decode()\<close>,
  with \<open>None\<close> for a \<open>UnicodeDecodeError\<close>.
\<close>

definition queue_post ::
  "(bytes \<Rightarrow> 's option) \<Rightarrow> 's set \<Rightarrow> bytes \<Rightarrow> 's user \<Rightarrow> error + 's user" where
  "queue_post decode tgs url u =
     (case tags u of
        None \<Rightarrow> Inl AttributeError
      | Some own \<Rightarrow>
          let intersection = own \<inter> tgs
          in if intersection \<noteq> {} then
               (case decode url of
                  None \<Rightarrow> Inl UnicodeDecodeError
                | Some _ \<Rightarrow> Inr (u\<lparr>posts_queue := posts_queue u @ [url]\<rparr>))
             else Inr u)"

text \<open>
  \<open>for user in users: await user.queue_post(tags, url)\<close>. An exception leaves the loop;
  the users not yet visited stay as they are.
\<close>

fun route ::
  "(bytes \<Rightarrow> 's option) \<Rightarrow> 's set \<Rightarrow> bytes \<Rightarrow> 's user list \<Rightarrow> 's user list \<times> error option" where
  "route decode tgs url [] = ([], None)"
| "route decode tgs url (u # us) =
     (case queue_post decode tgs url u of
        Inl e \<Rightarrow> (u # us, Some e)
      | Inr u' \<Rightarrow> (case route decode tgs url us of (us', r) \<Rightarrow> (u' # us', r)))"

text \<open>
  \<open>while len(posts_order)>DUPLICATE_HISTORY_LENGTH: del posts[posts_order.pop(0)]\<close>.
  The \<open>pop\<close> happens before the \<open>del\<close>, which raises \<open>KeyError\<close> for a missing key.
\<close>

fun evict ::
  "(bytes \<rightharpoonup> bytes \<times> bytes list) \<Rightarrow> bytes list
     \<Rightarrow> (bytes \<rightharpoonup> bytes \<times> bytes list) \<times> bytes list \<times> error option" where
  "evict ps [] = (ps, [], None)"
| "evict ps (x # rest) =
     (if int (length (x # rest)) > DUPLICATE_HISTORY_LENGTH then
        (if ps x \<noteq> None then evict (ps(x := None)) rest
         else (ps, rest, Some KeyError))
      else (ps, x # rest, None))"

text \<open>
  \<open>[t.decode().lower() for t in ...]\<close>: \<open>None.decode\<close> raises \<open>AttributeError\<close>, bytes
  that are not UTF-8 raise \<open>UnicodeDecodeError\<close>. \<open>lower\<close> is \<open>str.lower\<close>.
\<close>

fun decode_tags ::
  "(bytes \<Rightarrow> 's option) \<Rightarrow> ('s \<Rightarrow> 's) \<Rightarrow> bytes option list \<Rightarrow> error + 's list" where
  "decode_tags decode lower [] = Inr []"
| "decode_tags decode lower (t # ts) =
     (case t of
        None \<Rightarrow> Inl AttributeError
      | Some b \<Rightarrow>
          (case decode b of
             None \<Rightarrow> Inl UnicodeDecodeError
           | Some str \<Rightarrow>
               (case decode_tags decode lower ts of
                  Inl e \<Rightarrow> Inl e
                | Inr rest \<Rightarrow> Inr (lower str # rest))))"

text \<open>\<open>url[8:].split(b'/')[0]\<close>: the bytes of \<open>url[8:]\<close> before its first \<open>/\<close>.\<close>

definition server_of :: "bytes \<Rightarrow> bytes" where
  "server_of url = takeWhile (\<lambda>c. c \<noteq> CHR ''/'') (drop 8 url)"

text \<open>
  Lines 197 to 203 of \<open>process_update\<close>: the statistics counters. \<open>count_post s url\<close>
  is the state after them.
\<close>

definition count_post :: "'s state \<Rightarrow> bytes \<Rightarrow> 's state" where
  "count_post s url =
     (let server = server_of url
      in s\<lparr>total := total s + 1,
           servers := (servers s)(server \<mapsto>
             (case servers s server of Some c \<Rightarrow> c + 1 | None \<Rightarrow> 1)),
           post_count := post_count s + 1\<rparr>)"

text \<open>
  Lines 204 to 207: the tag set of the post and the loop over the users. The result is
  \<open>None\<close> when \<open>getlist\<close> does not return; otherwise it is the state and the exception
  that left the block, if any.
\<close>

definition fan_out ::
  "(bytes \<Rightarrow> 's option) \<Rightarrow> ('s \<Rightarrow> 's) \<Rightarrow> 's state \<Rightarrow> bytes \<Rightarrow> bytes
     \<Rightarrow> ('s state \<times> error option) option" where
  "fan_out decode lower s data url =
     (case getlist data ''\"tags\":'' of
        None \<Rightarrow> None
      | Some items \<Rightarrow>
          (case decode_tags decode lower items of
             Inl e \<Rightarrow> Some (s, Some e)
           | Inr names \<Rightarrow>
               let tgs = set names
               in if tgs \<noteq> {} then
                    (case route decode tgs url (users s) of
                       (us, r) \<Rightarrow> Some (s\<lparr>users := us\<rparr>, r))
                  else Some (s, None)))"

text \<open>
  \<open>process_update(data)\<close>. The body is inside \<open>try: ... except:\<close>, which prints the
  exception and returns: the result holds the globals as the call leaves them and the
  exception that was caught, if any. The result is \<open>None\<close> when the call does not return.
\<close>

definition process_update ::
  "(bytes \<Rightarrow> 's option) \<Rightarrow> ('s \<Rightarrow> 's) \<Rightarrow> 's state \<Rightarrow> bytes
     \<Rightarrow> ('s state \<times> error option) option" where
  "process_update decode lower s data =
     (case getfield data ''\"uri\":'' 0 of
        None \<Rightarrow> Some (s, None)
      | Some (url, _) \<Rightarrow>
          if posts s url \<noteq> None then Some (s, None)
          else
            (case evict ((posts s)(url \<mapsto> (url, []))) (posts_order s @ [url]) of
               (ps, order, Some e) \<Rightarrow> Some (s\<lparr>posts := ps, posts_order := order\<rparr>, Some e)
             | (ps, order, None) \<Rightarrow>
                 fan_out decode lower
                   (count_post (s\<lparr>posts := ps, posts_order := order\<rparr>) url) data url))"

section \<open>What \<open>find\<close> finds\<close>

text \<open>\<open>sub\<close> occurs in \<open>data\<close> at index \<open>i\<close>.\<close>

definition occurs_at :: "'a list \<Rightarrow> 'a list \<Rightarrow> nat \<Rightarrow> bool" where
  "occurs_at sub data i \<longleftrightarrow> i + length sub \<le> length data \<and> take (length sub) (drop i data) = sub"

lemma take_eq_length:
  assumes "take (length sub) ys = sub"
  shows "length sub \<le> length ys"
proof -
  have "length (take (length sub) ys) = length sub" using assms by simp
  then show ?thesis by simp
qed

lemma occurs_at_iff: "occurs_at sub data i \<longleftrightarrow> i \<le> length data \<and> take (length sub) (drop i data) = sub"
proof
  assume "occurs_at sub data i" then show "i \<le> length data \<and> take (length sub) (drop i data) = sub"
    by (simp add: occurs_at_def)
next
  assume a: "i \<le> length data \<and> take (length sub) (drop i data) = sub"
  then have "length sub \<le> length (drop i data)" using take_eq_length by blast
  then have "length sub \<le> length data - i" by simp
  with a have "i + length sub \<le> length data" by linarith
  with a show "occurs_at sub data i" by (simp add: occurs_at_def)
qed

lemma occurs_at_Cons_0: "occurs_at sub (x # xs) 0 \<longleftrightarrow> take (length sub) (x # xs) = sub"
  by (simp add: occurs_at_iff)

lemma occurs_at_Cons_Suc: "occurs_at sub (x # xs) (Suc j) \<longleftrightarrow> occurs_at sub xs j"
  by (simp add: occurs_at_def)

lemma occurs_at_Nil: "occurs_at sub [] j \<longleftrightarrow> sub = [] \<and> j = 0"
  by (auto simp add: occurs_at_def)

lemma index_of_None: "index_of sub xs = None \<Longrightarrow> \<not> occurs_at sub xs j"
proof (induction xs arbitrary: j)
  case Nil
  then show ?case by (simp add: occurs_at_Nil split: if_splits)
next
  case (Cons x xs)
  then show ?case
    by (cases j) (auto simp: occurs_at_Cons_0 occurs_at_Cons_Suc split: if_splits)
qed

lemma index_of_Some:
  "index_of sub xs = Some i \<Longrightarrow> occurs_at sub xs i \<and> (\<forall>j<i. \<not> occurs_at sub xs j)"
proof (induction xs arbitrary: i)
  case Nil
  then show ?case by (simp add: occurs_at_Nil split: if_splits)
next
  case (Cons x xs)
  show ?case
  proof (cases "take (length sub) (x # xs) = sub")
    case True
    with Cons.prems show ?thesis by (simp add: occurs_at_Cons_0)
  next
    case False
    with Cons.prems obtain k where k: "index_of sub xs = Some k" "i = Suc k" by auto
    from Cons.IH[OF k(1)] have ih: "occurs_at sub xs k" "\<forall>j<k. \<not> occurs_at sub xs j" by auto
    have "\<not> occurs_at sub (x # xs) j" if "j < i" for j
      using that False ih(2) k(2) by (cases j) (auto simp: occurs_at_Cons_0 occurs_at_Cons_Suc)
    with ih(1) k(2) show ?thesis by (simp add: occurs_at_Cons_Suc)
  qed
qed

lemma occurs_at_window:
  assumes "s \<le> e" "e \<le> length data"
  shows "occurs_at sub (take (e - s) (drop s data)) j \<longleftrightarrow> occurs_at sub data (s + j) \<and> s + j + length sub \<le> e"
proof -
  have len: "length (take (e - s) (drop s data)) = e - s" using assms by simp
  show ?thesis
  proof (cases "j + length sub \<le> e - s")
    case True
    then have "take (length sub) (drop j (take (e - s) (drop s data))) = take (length sub) (drop (s + j) data)"
      by (simp add: drop_take min_def add.commute)
    with True assms len show ?thesis by (auto simp: occurs_at_def)
  next
    case False
    with assms len show ?thesis by (auto simp: occurs_at_def)
  qed
qed


lemma start_index_nonneg: "0 \<le> start_index start (int n)"
  by (simp add: start_index_def)

lemma end_index_bounds: "0 \<le> end_index e (int n) \<and> end_index e (int n) \<le> int n"
  by (simp add: end_index_def)

lemma find_bytes_found:
  assumes "find_bytes data sub start end \<noteq> - 1"
  shows "\<exists>i. find_bytes data sub start end = int i
           \<and> nat (start_index start (int (length data))) \<le> i
           \<and> i + length sub \<le> nat (end_index end (int (length data)))
           \<and> occurs_at sub data i
           \<and> (\<forall>j. nat (start_index start (int (length data))) \<le> j \<and> j < i \<longrightarrow> \<not> occurs_at sub data j)"
proof -
  define s where "s = start_index start (int (length data))"
  define e where "e = end_index end (int (length data))"
  have s0: "0 \<le> s" unfolding s_def by (rule start_index_nonneg)
  have e0: "0 \<le> e" "e \<le> int (length data)" unfolding e_def using end_index_bounds by auto
  have unf: "find_bytes data sub start end =
          (if e - s < int (length sub) then - 1
           else (case index_of sub (take (nat (e - s)) (drop (nat s) data)) of
             None \<Rightarrow> - 1 | Some i \<Rightarrow> s + int i))"
    unfolding find_bytes_def Let_def s_def[symmetric] e_def[symmetric] by (rule refl)
  from assms unf have ge: "\<not> e - s < int (length sub)"
    by (auto split: if_splits)
  with assms unf obtain k where k: "index_of sub (take (nat (e - s)) (drop (nat s) data)) = Some k"
    and r: "find_bytes data sub start end = s + int k"
    by (cases "index_of sub (take (nat (e - s)) (drop (nat s) data))") auto
  have se: "nat s \<le> nat e" "nat e \<le> length data" "nat (e - s) = nat e - nat s"
    using s0 e0 ge by auto
  from index_of_Some[OF k] have occ: "occurs_at sub (take (nat e - nat s) (drop (nat s) data)) k"
    and least: "\<forall>j<k. \<not> occurs_at sub (take (nat e - nat s) (drop (nat s) data)) j"
    by (simp_all add: se)
  from occ have o1: "occurs_at sub data (nat s + k)" "nat s + k + length sub \<le> nat e"
    using occurs_at_window[OF se(1,2)] by auto
  have o2: "\<not> occurs_at sub data j" if "nat s \<le> j" "j < nat s + k" for j
  proof -
    from that have "j - nat s < k" by linarith
    with least have "\<not> occurs_at sub (take (nat e - nat s) (drop (nat s) data)) (j - nat s)" by blast
    moreover have "nat s + (j - nat s) + length sub \<le> nat e" using that o1(2) by linarith
    ultimately show ?thesis using occurs_at_window[OF se(1,2), of sub "j - nat s"] that by simp
  qed
  have r': "find_bytes data sub start end = int (nat s + k)" using r s0 by simp
  have "\<exists>i. find_bytes data sub start end = int i
           \<and> nat s \<le> i
           \<and> i + length sub \<le> nat e
           \<and> occurs_at sub data i
           \<and> (\<forall>j. nat s \<le> j \<and> j < i \<longrightarrow> \<not> occurs_at sub data j)"
  proof (intro exI[of _ "nat s + k"] conjI allI impI)
    show "find_bytes data sub start end = int (nat s + k)" by (rule r')
    show "nat s \<le> nat s + k" by simp
    show "nat s + k + length sub \<le> nat e" by (rule o1(2))
    show "occurs_at sub data (nat s + k)" by (rule o1(1))
    fix j assume "nat s \<le> j \<and> j < nat s + k"
    then show "\<not> occurs_at sub data j" using o2 by simp
  qed
  then show ?thesis unfolding s_def e_def .
qed

lemma find_bytes_notfound:
  assumes "find_bytes data sub start end = - 1"
    and "nat (start_index start (int (length data))) \<le> i"
    and "i + length sub \<le> nat (end_index end (int (length data)))"
  shows "\<not> occurs_at sub data i"
proof -
  define s where "s = start_index start (int (length data))"
  define e where "e = end_index end (int (length data))"
  have s0: "0 \<le> s" unfolding s_def by (rule start_index_nonneg)
  have e0: "0 \<le> e" "e \<le> int (length data)" unfolding e_def using end_index_bounds by auto
  have a2: "nat s \<le> i" and a3: "i + length sub \<le> nat e"
    using assms(2,3) by (simp_all add: s_def e_def)
  from a2 a3 s0 e0 have ge: "\<not> e - s < int (length sub)" by linarith
  have se: "nat s \<le> nat e" "nat e \<le> length data" "nat (e - s) = nat e - nat s"
    using s0 e0 ge by auto
  have "find_bytes data sub start end =
          (case index_of sub (take (nat e - nat s) (drop (nat s) data)) of
             None \<Rightarrow> - 1 | Some i \<Rightarrow> s + int i)"
    unfolding find_bytes_def Let_def s_def[symmetric] e_def[symmetric] using ge se(3) by simp
  with assms(1) s0 have "index_of sub (take (nat e - nat s) (drop (nat s) data)) = None"
    by (cases "index_of sub (take (nat e - nat s) (drop (nat s) data))") auto
  then have "\<not> occurs_at sub (take (nat e - nat s) (drop (nat s) data)) (i - nat s)"
    by (rule index_of_None)
  moreover have "nat s + (i - nat s) = i" using a2 by simp
  ultimately show ?thesis
    using occurs_at_window[OF se(1,2), of sub "i - nat s"] a3 by simp
qed


text \<open>\<open>i\<close> is the lowest index from \<open>s\<close> on at which \<open>sub\<close> occurs in \<open>data\<close>.\<close>

definition first_occ :: "'a list \<Rightarrow> 'a list \<Rightarrow> nat \<Rightarrow> nat \<Rightarrow> bool" where
  "first_occ sub data s i \<longleftrightarrow>
     s \<le> i \<and> occurs_at sub data i \<and> (\<forall>j\<in>set [s..<i]. \<not> occurs_at sub data j)"

lemma first_occ_iff:
  "first_occ sub data s i \<longleftrightarrow>
     s \<le> i \<and> occurs_at sub data i \<and> (\<forall>j. s \<le> j \<and> j < i \<longrightarrow> \<not> occurs_at sub data j)"
  by (auto simp: first_occ_def)

lemma first_occ_unique: "first_occ sub data s i \<Longrightarrow> first_occ sub data s k \<Longrightarrow> i = k"
  unfolding first_occ_iff by (meson linorder_neqE_nat)

lemma end_index_length: "end_index (int n) (int n) = int n"
  by (simp add: end_index_def)

lemma find_from_found:
  assumes "find_from data sub start \<noteq> - 1"
  shows "\<exists>i. find_from data sub start = int i
           \<and> first_occ sub data (nat (start_index start (int (length data)))) i"
proof -
  from assms have "find_bytes data sub start (int (length data)) \<noteq> - 1"
    by (simp add: find_from_def)
  from find_bytes_found[OF this] show ?thesis
    unfolding find_from_def first_occ_iff by blast
qed

lemma find_from_notfound:
  assumes "find_from data sub start = - 1"
    and "nat (start_index start (int (length data))) \<le> i"
  shows "\<not> occurs_at sub data i"
proof
  assume occ: "occurs_at sub data i"
  then have "i + length sub \<le> nat (end_index (int (length data)) (int (length data)))"
    by (simp add: end_index_length occurs_at_def)
  with find_bytes_notfound[of data sub start "int (length data)" i] assms occ
  show False by (simp add: find_from_def)
qed

lemma find_from_first:
  assumes "first_occ sub data (nat (start_index start (int (length data)))) i"
  shows "find_from data sub start = int i"
proof (cases "find_from data sub start = - 1")
  case True
  from find_from_notfound[OF True, of i] assms show ?thesis by (simp add: first_occ_iff)
next
  case False
  from find_from_found[OF False] obtain k where k: "find_from data sub start = int k"
    "first_occ sub data (nat (start_index start (int (length data)))) k" by blast
  with first_occ_unique[OF assms k(2)] show ?thesis by simp
qed

lemma find_from_absent:
  assumes "\<forall>i. nat (start_index start (int (length data))) \<le> i \<longrightarrow> \<not> occurs_at sub data i"
  shows "find_from data sub start = - 1"
proof (rule ccontr)
  assume "find_from data sub start \<noteq> - 1"
  from find_from_found[OF this] assms show False by (auto simp: first_occ_iff)
qed

lemma start_index_nat: "start_index (int a) n = int a"
  by (simp add: start_index_def)

lemma occurs_at_single: "occurs_at [c] data j \<longleftrightarrow> j < length data \<and> data ! j = c"
proof (cases "j < length data")
  case True
  then have "drop j data = data ! j # drop (Suc j) data" by (simp add: Cons_nth_drop_Suc)
  with True show ?thesis by (simp add: occurs_at_def)
next
  case False
  then show ?thesis by (simp add: occurs_at_def)
qed

lemma find_char_split:
  assumes "drop a data = pre @ c # post" "c \<notin> set pre"
  shows "find_from data [c] (int a) = int (a + length pre)"
proof -
  have len: "length data - a = length pre + Suc (length post)"
    using arg_cong[OF assms(1), of length] by simp
  then have lt: "a + length pre < length data" by linarith
  have nth: "data ! (a + j) = (pre @ c # post) ! j" if "a + j < length data" for j
    using that assms(1) by (metis nth_drop le_add1 less_imp_le_nat le_trans)
  have "data ! (a + length pre) = c" using nth[OF lt] by simp
  moreover have "data ! j \<noteq> c" if "a \<le> j" "j < a + length pre" for j
  proof -
    from that have "j - a < length pre" by linarith
    then have "pre ! (j - a) \<in> set pre" by simp
    moreover have "data ! j = pre ! (j - a)"
      using nth[of "j - a"] that lt \<open>j - a < length pre\<close> by (simp add: nth_append)
    ultimately show ?thesis using assms(2) by metis
  qed
  ultimately have "first_occ [c] data a (a + length pre)"
    using lt by (simp add: first_occ_iff occurs_at_single)
  then show ?thesis by (intro find_from_first) (simp add: start_index_nat)
qed

lemma find_char_none:
  assumes "c \<notin> set (drop a data)"
  shows "find_from data [c] (int a) = - 1"
proof (rule find_from_absent, intro allI impI)
  fix i assume "nat (start_index (int a) (int (length data))) \<le> i"
  then have ai: "a \<le> i" by (simp add: start_index_nat)
  show "\<not> occurs_at [c] data i"
  proof
    assume "occurs_at [c] data i"
    then have i: "i < length data" "data ! i = c" by (simp_all add: occurs_at_single)
    then have "(drop a data) ! (i - a) = c" "i - a < length (drop a data)" using ai by simp_all
    then have "c \<in> set (drop a data)" by (metis nth_mem)
    with assms show False by simp
  qed
qed

lemma find_char_found:
  assumes "find_from data [c] (int a) \<noteq> - 1"
  shows "\<exists>pre post. drop a data = pre @ c # post \<and> c \<notin> set pre
            \<and> find_from data [c] (int a) = int (a + length pre)"
proof -
  from find_from_found[OF assms] obtain k where k: "find_from data [c] (int a) = int k"
    and fo: "first_occ [c] data a k" by (auto simp: start_index_nat)
  from fo have ak: "a \<le> k" and kl: "k < length data" and kc: "data ! k = c"
    and least: "\<forall>j. a \<le> j \<and> j < k \<longrightarrow> data ! j \<noteq> c"
    by (auto simp: first_occ_iff occurs_at_single)
  define pre where "pre = take (k - a) (drop a data)"
  define post where "post = drop (Suc k) data"
  have ka: "k - a < length (drop a data)" using ak kl by simp
  have A: "drop a data = pre @ (drop a data) ! (k - a) # drop (Suc (k - a)) (drop a data)"
    unfolding pre_def using ka by (rule id_take_nth_drop)
  have B: "(drop a data) ! (k - a) = c" using ak kl kc by simp
  have C: "drop (Suc (k - a)) (drop a data) = post" using ak by (simp add: post_def)
  have split: "drop a data = pre @ c # post" using A unfolding B C .
  have lp: "length pre = k - a" using ka by (simp add: pre_def)
  have "c \<notin> set pre"
  proof
    assume "c \<in> set pre"
    then obtain j where j: "j < length pre" "pre ! j = c" by (auto simp: in_set_conv_nth)
    then have "data ! (a + j) = c" using lp ka by (simp add: pre_def)
    moreover have "a \<le> a + j \<and> a + j < k" using j(1) lp by linarith
    ultimately show False using least by blast
  qed
  moreover have "find_from data [c] (int a) = int (a + length pre)" using k lp ak by simp
  ultimately show ?thesis using split by blast
qed


lemma slice_nat:
  assumes "l \<le> h" "h \<le> length data"
  shows "slice data (int l) (int h) = take (h - l) (drop l data)"
proof -
  have "slice_index (int l) (int (length data)) = int l" "slice_index (int h) (int (length data)) = int h"
    using assms by (simp_all add: slice_index_def)
  then show ?thesis using assms by (simp add: slice_def Let_def nat_diff_distrib')
qed

lemma null_check:
  assumes "a \<le> length data"
  shows "find_bytes data ''null'' (int a) (int a + 4) \<noteq> - 1 \<longleftrightarrow> take 4 (drop a data) = ''null''"
proof
  assume "find_bytes data ''null'' (int a) (int a + 4) \<noteq> - 1"
  from find_bytes_found[OF this] obtain k where
    k: "nat (start_index (int a) (int (length data))) \<le> k"
       "k + length ''null'' \<le> nat (end_index (int a + 4) (int (length data)))"
       "occurs_at ''null'' data k" by blast
  have "end_index (int a + 4) (int (length data)) \<le> int a + 4" by (simp add: end_index_def)
  with k(1,2) have "k = a" by (simp add: start_index_nat)
  moreover have l4: "length ''null'' = 4" by simp
  moreover from k(3) have "take 4 (drop k data) = ''null''"
    unfolding occurs_at_def l4 by (rule conjunct2)
  ultimately show "take 4 (drop a data) = ''null''" by (simp only:)
next
  assume t: "take 4 (drop a data) = ''null''"
  have l4: "length ''null'' = 4" by simp
  have occ: "occurs_at ''null'' data a"
    unfolding occurs_at_iff l4 using assms t by (rule conjI)
  then have "a + 4 \<le> length data" by (simp add: occurs_at_def)
  then have "end_index (int a + 4) (int (length data)) = int a + 4" by (simp add: end_index_def)
  then have e: "a + length ''null'' \<le> nat (end_index (int a + 4) (int (length data)))" by simp
  show "find_bytes data ''null'' (int a) (int a + 4) \<noteq> - 1"
  proof
    assume "find_bytes data ''null'' (int a) (int a + 4) = - 1"
    from find_bytes_notfound[OF this _ e] occ show False by (simp add: start_index_nat)
  qed
qed

text \<open>
  The rest of the body of \<open>getfield\<close> (its lines 118 to 124), once the label has been
  located: \<open>a\<close> is the index behind the label, \<open>field_start + len(field)\<close>.
\<close>

definition value_after :: "bytes \<Rightarrow> nat \<Rightarrow> (bytes \<times> int) option" where
  "value_after data a =
     (if find_bytes data ''null'' (int a) (int a + 4) \<noteq> - 1 then None
      else
           let value_start = find_from data [dq] (int a)
           in if value_start = - 1 then None
              else
                let value_end = find_from data [dq] (value_start + 1)
                in if value_end = - 1 then None
                   else Some (slice data (value_start + 1) value_end, value_end + 1))"

lemma getfield_located:
  "find_from data field offset = int i \<Longrightarrow>
     getfield data field offset = value_after data (i + length field)"
  by (simp add: getfield_def value_after_def Let_def)

lemma getfield_not_located:
  "find_from data field offset = - 1 \<Longrightarrow> getfield data field offset = None"
  by (simp add: getfield_def)

lemma value_after_SomeI:
  assumes "take 4 (drop a data) \<noteq> ''null''"
    and "drop a data = pre @ dq # v @ dq # post" "dq \<notin> set pre" "dq \<notin> set v"
  shows "value_after data a = Some (v, int (a + length pre + length v + 2))"
proof -
  have al: "a \<le> length data" using assms(2) by (cases "a \<le> length data") auto
  have n: "\<not> find_bytes data ''null'' (int a) (int a + 4) \<noteq> - 1"
    using null_check[OF al] assms(1) by simp
  have vs: "find_from data [dq] (int a) = int (a + length pre)"
    using assms(2,3) by (rule find_char_split)
  have "drop (a + length pre + 1) data = drop (length pre + 1) (drop a data)"
    by (simp add: add.commute add.left_commute)
  also have "\<dots> = v @ dq # post" by (simp add: assms(2))
  finally have d2: "drop (a + length pre + 1) data = v @ dq # post" .
  have ve: "find_from data [dq] (int (a + length pre + 1)) = int (a + length pre + 1 + length v)"
    using d2 assms(4) by (rule find_char_split)
  have "length (drop (a + length pre + 1) data) = length v + 1 + length post"
    using arg_cong[OF d2, of length] by simp
  then have hl: "a + length pre + 1 + length v \<le> length data" by simp
  have sl: "slice data (int (a + length pre + 1)) (int (a + length pre + 1 + length v)) = v"
    using slice_nat[OF _ hl, of "a + length pre + 1"] d2 by simp
  have i1: "int (a + length pre) + 1 = int (a + length pre + 1)" by simp
  show ?thesis
    unfolding value_after_def Let_def vs i1 ve sl using n by simp
qed

lemma value_after_SomeD:
  assumes "value_after data a = Some (v, m)" "a \<le> length data"
  shows "\<exists>pre post. take 4 (drop a data) \<noteq> ''null''
            \<and> drop a data = pre @ dq # v @ dq # post \<and> dq \<notin> set pre \<and> dq \<notin> set v
            \<and> m = int (a + length pre + length v + 2)"
proof -
  from assms(1) have n: "\<not> find_bytes data ''null'' (int a) (int a + 4) \<noteq> - 1"
    unfolding value_after_def by (metis option.distinct(1))
  then have nn: "take 4 (drop a data) \<noteq> ''null''" using null_check[OF assms(2)] by simp
  from assms(1) n have vs: "find_from data [dq] (int a) \<noteq> - 1"
    unfolding value_after_def Let_def by (metis option.distinct(1))
  from find_char_found[OF vs] obtain pre post1 where
    p: "drop a data = pre @ dq # post1" "dq \<notin> set pre"
       "find_from data [dq] (int a) = int (a + length pre)" by blast
  have i1: "int (a + length pre) + 1 = int (a + length pre + 1)" by simp
  from assms(1) n vs have ve: "find_from data [dq] (int (a + length pre + 1)) \<noteq> - 1"
    unfolding value_after_def Let_def p(3) i1 by (metis option.distinct(1))
  from find_char_found[OF ve] obtain w post where
    q: "drop (a + length pre + 1) data = w @ dq # post" "dq \<notin> set w"
       "find_from data [dq] (int (a + length pre + 1)) = int (a + length pre + 1 + length w)" by blast
  have "drop (a + length pre + 1) data = drop (length pre + 1) (drop a data)"
    by (simp add: add.commute add.left_commute)
  also have "\<dots> = post1" by (simp add: p(1))
  finally have post1: "post1 = w @ dq # post" using q(1) by simp
  have "value_after data a = Some (w, int (a + length pre + length w + 2))"
    using nn p(1)[unfolded post1] p(2) q(2) by (rule value_after_SomeI)
  with assms(1) have "v = w" "m = int (a + length pre + length w + 2)" by auto
  with nn p post1 q(2) show ?thesis by blast
qed


section \<open>What \<open>getfield\<close> returns\<close>

text \<open>The index at which a search that is given \<open>offset\<close> as its start begins.\<close>

definition scan_start :: "int \<Rightarrow> 'a list \<Rightarrow> nat" where
  "scan_start offset data = nat (start_index offset (int (length data)))"

lemma scan_start_ge: "offset \<le> int (scan_start offset data)"
  by (auto simp: scan_start_def start_index_def max_def)

lemma scan_start_nat: "scan_start (int a) data = a"
  by (simp add: scan_start_def start_index_nat)

lemma getfield_SomeD:
  assumes "getfield data field offset = Some (v, m)"
  shows "\<exists>i pre post. first_occ field data (scan_start offset data) i
           \<and> take 4 (drop (i + length field) data) \<noteq> ''null''
           \<and> drop (i + length field) data = pre @ dq # v @ dq # post
           \<and> dq \<notin> set pre \<and> dq \<notin> set v
           \<and> m = int (i + length field + length pre + length v + 2)"
proof -
  have "find_from data field offset \<noteq> - 1"
    using assms getfield_not_located[of data field offset] by auto
  from find_from_found[OF this] obtain i where
    i: "find_from data field offset = int i"
       "first_occ field data (scan_start offset data) i"
    unfolding scan_start_def by blast
  from i(2) have "i + length field \<le> length data"
    by (simp add: first_occ_iff occurs_at_def)
  moreover have "value_after data (i + length field) = Some (v, m)"
    using assms getfield_located[OF i(1)] by simp
  ultimately show ?thesis using value_after_SomeD i(2) by blast
qed

lemma getfield_SomeI:
  assumes "first_occ field data (scan_start offset data) i"
    and "take 4 (drop (i + length field) data) \<noteq> ''null''"
    and "drop (i + length field) data = pre @ dq # v @ dq # post"
    and "dq \<notin> set pre" "dq \<notin> set v"
  shows "getfield data field offset = Some (v, int (i + length field + length pre + length v + 2))"
proof -
  have "find_from data field offset = int i"
    using assms(1) unfolding scan_start_def by (rule find_from_first)
  then have "getfield data field offset = value_after data (i + length field)"
    by (rule getfield_located)
  with value_after_SomeI[OF assms(2-5)] show ?thesis by simp
qed

text \<open>\<open>sub\<close> occurs nowhere in \<open>data\<close> at an index from \<open>s\<close> on.\<close>

definition absent_from :: "'a list \<Rightarrow> 'a list \<Rightarrow> nat \<Rightarrow> bool" where
  "absent_from sub data s \<longleftrightarrow>
     (\<forall>j\<in>set [s..<Suc (length data)]. \<not> occurs_at sub data j)"

lemma getfield_absent:
  assumes "absent_from field data (scan_start offset data)"
  shows "getfield data field offset = None"
proof -
  have "\<not> occurs_at field data i" if "scan_start offset data \<le> i" for i
    using that assms by (cases "i \<le> length data") (auto simp: occurs_at_def absent_from_def)
  then have "find_from data field offset = - 1"
    unfolding scan_start_def by (intro find_from_absent) blast
  then show ?thesis by (rule getfield_not_located)
qed

lemma getfield_null:
  assumes "first_occ field data (scan_start offset data) i"
    and "take 4 (drop (i + length field) data) = ''null''"
  shows "getfield data field offset = None"
proof -
  have "find_from data field offset = int i"
    using assms(1) unfolding scan_start_def by (rule find_from_first)
  then have "getfield data field offset = value_after data (i + length field)"
    by (rule getfield_located)
  moreover have "i + length field \<le> length data"
    using assms(1) by (simp add: first_occ_iff occurs_at_def)
  then have "find_bytes data ''null'' (int (i + length field)) (int (i + length field) + 4) \<noteq> - 1"
    using null_check assms(2) by blast
  then have "value_after data (i + length field) = None"
    by (simp add: value_after_def)
  ultimately show ?thesis by simp
qed

lemma getfield_few_quotes:
  assumes "first_occ field data (scan_start offset data) i"
    and "length (filter (\<lambda>c. c = dq) (drop (i + length field) data)) < 2"
  shows "getfield data field offset = None"
proof (rule ccontr)
  assume "getfield data field offset \<noteq> None"
  then obtain v m where "getfield data field offset = Some (v, m)" by auto
  from getfield_SomeD[OF this] obtain k pre post where
    k: "first_occ field data (scan_start offset data) k"
       "drop (k + length field) data = pre @ dq # v @ dq # post" by blast
  from first_occ_unique[OF assms(1) k(1)] k(2)
  have "drop (i + length field) data = pre @ dq # v @ dq # post" by simp
  with assms(2) show False by simp
qed

lemma getfield_progress:
  assumes "getfield data field offset = Some (v, m)"
  shows "offset < m \<and> m \<le> int (length data)"
proof -
  from getfield_SomeD[OF assms] obtain i pre post where
    i: "first_occ field data (scan_start offset data) i"
       "drop (i + length field) data = pre @ dq # v @ dq # post"
       "m = int (i + length field + length pre + length v + 2)" by blast
  from i(1) have "scan_start offset data \<le> i" by (simp add: first_occ_iff)
  with scan_start_ge[of offset data] have "offset \<le> int i" by linarith
  moreover have "length data - (i + length field) = length pre + length v + length post + 2"
    using arg_cong[OF i(2), of length] by simp
  ultimately show ?thesis using i(3) by linarith
qed


section \<open>Claims about the field extractor\<close>

text \<open>
  C9. Whenever \<open>getfield\<close> returns a value, the offset it returns with it is strictly
  greater than the offset it was given (for every buffer, label and offset; the label
  need not even be non-empty), and it is at most the length of the buffer. This is the
  progress that the termination proof of \<open>followed_tags_loop\<close> below rests on: each
  round of the re-scan over the \<open>name\<close> fields moves the offset forward inside the buffer.
\<close>

theorem getfield_offset_advances:
  "getfield data field offset = Some (v, next_offset) \<Longrightarrow>
     offset < next_offset \<and> next_offset \<le> int (length data)"
  by (rule getfield_progress)

theorem getfield_offset_advances_witness:
  "getfield ''[{\"name\":\"a\"}]'' ''\"name\":'' 0 = Some (''a'', 12)
     \<and> (0::int) < 12 \<and> (12::int) \<le> int (length ''[{\"name\":\"a\"}]'')"
proof -
  have h: "getfield ''[{\"name\":\"a\"}]'' ''\"name\":'' 0 = Some (''a'', 12)"
    by code_simp
  show ?thesis using h getfield_offset_advances[OF h] by simp
qed

text \<open>
  C10. The value \<open>getfield\<close> returns is the run of bytes strictly between the first two
  double-quote bytes after the (first occurrence at or after the offset of the) label,
  so it holds no double-quote byte; and a string value with an escaped quote in it
  (the bytes \<open>s\<close>, a backslash, a double quote, and more) comes back cut off at that
  quote: as \<open>s\<close> followed by the backslash.
\<close>

theorem getfield_value_between_quotes:
  "(getfield data field offset = Some (v, m) \<longrightarrow>
      dq \<notin> set v
      \<and> (\<exists>i pre post. first_occ field data (scan_start offset data) i
            \<and> drop (i + length field) data = pre @ dq # v @ dq # post
            \<and> dq \<notin> set pre
            \<and> m = int (i + length field + length pre + length v + 2)))
   \<and> (first_occ field data (scan_start offset data) k
        \<and> take 4 (drop (k + length field) data) \<noteq> ''null''
        \<and> drop (k + length field) data = dq # s @ CHR 0x5C # dq # rest
        \<and> dq \<notin> set s \<longrightarrow>
      getfield data field offset = Some (s @ [CHR 0x5C], int (k + length field + length s + 3)))"
proof (intro conjI impI)
  assume "getfield data field offset = Some (v, m)"
  from getfield_SomeD[OF this]
  show "dq \<notin> set v" by blast
next
  assume "getfield data field offset = Some (v, m)"
  from getfield_SomeD[OF this]
  show "\<exists>i pre post. first_occ field data (scan_start offset data) i
            \<and> drop (i + length field) data = pre @ dq # v @ dq # post
            \<and> dq \<notin> set pre
            \<and> m = int (i + length field + length pre + length v + 2)" by blast
next
  assume a: "first_occ field data (scan_start offset data) k
        \<and> take 4 (drop (k + length field) data) \<noteq> ''null''
        \<and> drop (k + length field) data = dq # s @ CHR 0x5C # dq # rest
        \<and> dq \<notin> set s"
  then have f: "first_occ field data (scan_start offset data) k"
    and n: "take 4 (drop (k + length field) data) \<noteq> ''null''" by blast+
  from a have d: "drop (k + length field) data = [] @ dq # (s @ [CHR 0x5C]) @ dq # rest" by simp
  have q: "dq \<notin> set (s @ [CHR 0x5C])" using a by (simp add: dq_def)
  have "getfield data field offset =
          Some (s @ [CHR 0x5C],
            int (k + length field + length ([]::bytes) + length (s @ [CHR 0x5C]) + 2))"
    using f n d _ q by (rule getfield_SomeI) simp
  moreover have "int (k + length field + length ([]::bytes) + length (s @ [CHR 0x5C]) + 2)
                   = int (k + length field + length s + 3)" by simp
  ultimately show "getfield data field offset =
      Some (s @ [CHR 0x5C], int (k + length field + length s + 3))" by (simp only:)
qed

theorem getfield_value_between_quotes_witness:
  "getfield (''\"uri\":\"a'' @ [CHR 0x5C, dq] @ ''b\"'') ''\"uri\":'' 0
       = Some (''a'' @ [CHR 0x5C], 10)
   \<and> dq \<notin> set (''a'' @ [CHR 0x5C])
   \<and> first_occ ''\"uri\":'' (''\"uri\":\"a'' @ [CHR 0x5C, dq] @ ''b\"'')
         (scan_start 0 (''\"uri\":\"a'' @ [CHR 0x5C, dq] @ ''b\"'')) 0
   \<and> take 4 (drop (0 + length ''\"uri\":'') (''\"uri\":\"a'' @ [CHR 0x5C, dq] @ ''b\"''))
         \<noteq> ''null''
   \<and> drop (0 + length ''\"uri\":'') (''\"uri\":\"a'' @ [CHR 0x5C, dq] @ ''b\"'')
         = dq # ''a'' @ CHR 0x5C # dq # ''b\"''
   \<and> dq \<notin> set ''a''"
proof -
  have h1: "getfield (''\"uri\":\"a'' @ [CHR 0x5C, dq] @ ''b\"'') ''\"uri\":'' 0
              = Some (''a'' @ [CHR 0x5C], 10)"
    by code_simp
  have h2: "first_occ ''\"uri\":'' (''\"uri\":\"a'' @ [CHR 0x5C, dq] @ ''b\"'')
              (scan_start 0 (''\"uri\":\"a'' @ [CHR 0x5C, dq] @ ''b\"'')) 0
            \<and> take 4 (drop (0 + length ''\"uri\":'') (''\"uri\":\"a'' @ [CHR 0x5C, dq] @ ''b\"''))
                 \<noteq> ''null''
            \<and> drop (0 + length ''\"uri\":'') (''\"uri\":\"a'' @ [CHR 0x5C, dq] @ ''b\"'')
                 = dq # ''a'' @ CHR 0x5C # dq # ''b\"''
            \<and> dq \<notin> set ''a''"
    by code_simp
  note t = getfield_value_between_quotes[of "''\"uri\":\"a'' @ [CHR 0x5C, dq] @ ''b\"''"
      "''\"uri\":''" 0 "''a'' @ [CHR 0x5C]" 10 0 "''a''" "''b\"''"]
  from t h1 have "dq \<notin> set (''a'' @ [CHR 0x5C])" by blast
  moreover from t h2 have "getfield (''\"uri\":\"a'' @ [CHR 0x5C, dq] @ ''b\"'') ''\"uri\":'' 0
      = Some (''a'' @ [CHR 0x5C], int (0 + length ''\"uri\":'' + length ''a'' + 3))"
    by blast
  ultimately show ?thesis using h1 h2 by blast
qed

text \<open>
  C5. As stated the claim fails: with the label present and no \<open>null\<close> behind it,
  \<open>getfield\<close> still returns \<open>(None, None)\<close> when fewer than two double-quote bytes
  follow the label (here the value is a number).
\<close>

theorem getfield_otherwise_counterexample:
  "occurs_at ''\"uri\":'' ''\"uri\":1'' 0
   \<and> take 4 (drop (length ''\"uri\":'') ''\"uri\":1'') \<noteq> ''null''
   \<and> getfield ''\"uri\":1'' ''\"uri\":'' 0 = None"
  by code_simp

text \<open>
  C5, amended. \<open>getfield\<close> returns \<open>(None, None)\<close> when the label does not occur at or
  after the offset, when \<open>null\<close> stands directly behind the first such occurrence of the
  label, and when fewer than two double-quote bytes follow that occurrence; when a
  double quote stands directly behind the label and another one follows, it returns the
  bytes between the two, with the offset just past the second. (A negative offset counts
  from the end of the buffer, as \<open>scan_start\<close> says. Nothing is said about a label that is
  followed by anything else with two double quotes further on.)
\<close>

theorem getfield_cases:
  "(absent_from field data (scan_start offset data) \<longrightarrow>
      getfield data field offset = None)
   \<and> (first_occ field data (scan_start offset data) i \<longrightarrow>
        (take 4 (drop (i + length field) data) = ''null'' \<longrightarrow>
           getfield data field offset = None)
      \<and> (length (filter (\<lambda>c. c = dq) (drop (i + length field) data)) < 2 \<longrightarrow>
           getfield data field offset = None)
      \<and> (drop (i + length field) data = dq # v @ dq # post \<and> dq \<notin> set v \<longrightarrow>
           getfield data field offset = Some (v, int (i + length field + length v + 2))))"
proof -
  have quoted: "getfield data field offset = Some (v, int (i + length field + length v + 2))"
    if f: "first_occ field data (scan_start offset data) i"
      and d: "drop (i + length field) data = dq # v @ dq # post" and v: "dq \<notin> set v"
  proof -
    have n: "take 4 (drop (i + length field) data) \<noteq> ''null''"
      unfolding d by (simp add: dq_def)
    have d': "drop (i + length field) data = [] @ dq # v @ dq # post" using d by simp
    have "getfield data field offset
            = Some (v, int (i + length field + length ([]::bytes) + length v + 2))"
      using f n d' _ v by (rule getfield_SomeI) simp
    then show ?thesis by simp
  qed
  show ?thesis
    using getfield_absent[of field data offset] getfield_null[of field data offset i]
      getfield_few_quotes[of field data offset i] quoted
    by blast
qed

text \<open>Example buffers for the four cases.\<close>

definition no_uri :: bytes where
  "no_uri = ''{\"id\":\"7\"}''"

definition null_uri :: bytes where
  "null_uri = ''{\"uri\":null}''"

definition number_uri :: bytes where
  "number_uri = ''{\"uri\":12}''"

definition string_uri :: bytes where
  "string_uri = ''{\"uri\":\"u\"}''"

theorem getfield_cases_witness:
  "absent_from ''\"uri\":'' no_uri (scan_start 0 no_uri)
   \<and> getfield no_uri ''\"uri\":'' 0 = None
   \<and> first_occ ''\"uri\":'' null_uri (scan_start 0 null_uri) 1
   \<and> take 4 (drop (1 + length ''\"uri\":'') null_uri) = ''null''
   \<and> getfield null_uri ''\"uri\":'' 0 = None
   \<and> first_occ ''\"uri\":'' number_uri (scan_start 0 number_uri) 1
   \<and> length (filter (\<lambda>c. c = dq) (drop (1 + length ''\"uri\":'') number_uri)) < 2
   \<and> getfield number_uri ''\"uri\":'' 0 = None
   \<and> first_occ ''\"uri\":'' string_uri (scan_start 0 string_uri) 1
   \<and> drop (1 + length ''\"uri\":'') string_uri = dq # ''u'' @ dq # ''}''
   \<and> dq \<notin> set ''u''
   \<and> getfield string_uri ''\"uri\":'' 0 = Some (''u'', 10)"
proof -
  have a: "absent_from ''\"uri\":'' no_uri (scan_start 0 no_uri)"
    by code_simp
  have b: "first_occ ''\"uri\":'' null_uri (scan_start 0 null_uri) 1"
    "take 4 (drop (1 + length ''\"uri\":'') null_uri) = ''null''"
    by code_simp+
  have c: "first_occ ''\"uri\":'' number_uri (scan_start 0 number_uri) 1"
    "length (filter (\<lambda>c. c = dq) (drop (1 + length ''\"uri\":'') number_uri)) < 2"
    by code_simp+
  have d: "first_occ ''\"uri\":'' string_uri (scan_start 0 string_uri) 1"
    "drop (1 + length ''\"uri\":'') string_uri = dq # ''u'' @ dq # ''}''"
    "dq \<notin> set ''u''"
    by code_simp+
  have e: "int (1 + length ''\"uri\":'' + length ''u'' + 2) = 10"
    by simp
  from a getfield_cases[of "''\"uri\":''" no_uri 0]
  have 1: "getfield no_uri ''\"uri\":'' 0 = None" by blast
  from b getfield_cases[of "''\"uri\":''" null_uri 0 1]
  have 2: "getfield null_uri ''\"uri\":'' 0 = None" by blast
  from c getfield_cases[of "''\"uri\":''" number_uri 0 1]
  have 3: "getfield number_uri ''\"uri\":'' 0 = None" by blast
  from d getfield_cases[of "''\"uri\":''" string_uri 0 1 "''u''" "''}''"]
  have "getfield string_uri ''\"uri\":'' 0
     = Some (''u'', int (1 + length ''\"uri\":'' + length ''u'' + 2))"
    by blast
  then have 4: "getfield string_uri ''\"uri\":'' 0 = Some (''u'', 10)"
    unfolding e .
  from a b c d 1 2 3 4 show ?thesis by (intro conjI)
qed


section \<open>Claims about \<open>getlist\<close>\<close>

text \<open>
  A round of the loop that finds a \<open>{\<close> but no \<open>}\<close> before \<open>list_end\<close> sets
  \<open>ptr = entry_end + 1 = 0\<close>. From \<open>ptr = 0\<close> the same \<open>{\<close> is found again, so the
  loop never leaves.
\<close>

lemma getlist_loop_stuck:
  assumes open_found: "find_bytes data ''{'' 0 list_end \<noteq> - 1"
    and no_close: "find_bytes data ''}'' (find_bytes data ''{'' 0 list_end + 1) list_end = - 1"
  shows "getlist_loop data list_end 0 items = None"
proof (rule ccontr)
  assume "getlist_loop data list_end 0 items \<noteq> None"
  then obtain y where y: "getlist_loop data list_end 0 items = Some y" by auto
  have "d = data \<longrightarrow> le = list_end \<longrightarrow> p = 0 \<longrightarrow> False"
    if "getlist_loop d le p it = Some r" for d le p it r
  proof (rule getlist_loop.raw_induct[where
        P="\<lambda>d le p it r. d = data \<longrightarrow> le = list_end \<longrightarrow> p = 0 \<longrightarrow> False", OF _ that])
    fix loop :: "bytes \<Rightarrow> int \<Rightarrow> int \<Rightarrow> bytes option list \<Rightarrow> bytes option list option"
      and d le p it r
    assume IH: "\<And>d le p it r. loop d le p it = Some r \<Longrightarrow>
                  d = data \<longrightarrow> le = list_end \<longrightarrow> p = 0 \<longrightarrow> False"
      and body: "(let entry_start = find_bytes d ''{'' p le
           in if entry_start = - 1 then Some it
              else
                let ptr1 = entry_start + 1;
                    entry_end = find_bytes d ''}'' ptr1 le;
                    ptr2 = entry_end + 1;
                    tagname = map_option fst
                      (getfield (slice d entry_start entry_end) ''\"name\":'' 0)
                in loop d le ptr2 (it @ [tagname])) = Some r"
    show "d = data \<longrightarrow> le = list_end \<longrightarrow> p = 0 \<longrightarrow> False"
    proof (intro impI)
      assume "d = data" "le = list_end" "p = 0"
      with body open_found no_close
      have "\<exists>it'. loop data list_end 0 it' = Some r"
        by (auto simp: Let_def)
      then obtain it' where "loop data list_end 0 it' = Some r" by blast
      from IH[OF this] show False by simp
    qed
  qed
  from this[OF y] show False by simp
qed

text \<open>
  C4 (the code does not do this). \<open>getlist\<close> is not total: on a list whose object entry
  is not closed before the closing bracket, the call does not return.
\<close>

theorem getlist_unterminated_entry_diverges:
  "getlist ''\"tags\":[{\"name\":\"a\"]'' ''\"tags\":'' = None"
proof -
  let ?d = "''\"tags\":[{\"name\":\"a\"]''"
  have f1: "find_from ?d ''\"tags\":'' 0 = 0" by code_simp
  have f2: "find_bytes ?d ''[]'' (0 + int (length ''\"tags\":'')) (0 + int (length ''\"tags\":'') + 3) = - 1"
    by code_simp
  have f3: "find_from ?d ''['' (0 + int (length ''\"tags\":'')) = 7" by code_simp
  have f4: "find_from ?d '']'' (7 + 1) = 19" by code_simp
  have start: "getlist ?d ''\"tags\":'' = getlist_loop ?d 19 8 []"
    unfolding getlist_def Let_def f1 f2 f3 f4 by simp
  have g1: "find_bytes ?d ''{'' 8 19 = 8" by code_simp
  have g2: "find_bytes ?d ''}'' (8 + 1) 19 = - 1" by code_simp
  have round: "getlist_loop ?d 19 8 [] = getlist_loop ?d 19 0
        ([] @ [map_option fst (getfield (slice ?d 8 (- 1)) ''\"name\":'' 0)])"
    by (subst getlist_loop.simps) (simp only: Let_def g1 g2, simp)
  have h1: "find_bytes ?d ''{'' 0 19 \<noteq> - 1" by code_simp
  have h2: "find_bytes ?d ''}'' (find_bytes ?d ''{'' 0 19 + 1) 19 = - 1" by code_simp
  show ?thesis unfolding start round using h1 h2 by (rule getlist_loop_stuck)
qed

text \<open>
  C6 (the code does not do this). An entry without a \<open>name\<close> field puts \<open>None\<close> into the
  returned list.
\<close>

theorem getlist_entry_without_name:
  "getlist ''\"tags\":[{\"id\":\"1\"}]'' ''\"tags\":'' = Some [None]"
  by code_simp


section \<open>The tag refresher\<close>

text \<open>
  The loop of \<open>followed_tags\<close> over the \<open>name\<close> fields of the response line. It ends
  with the set when \<open>getfield\<close> returns \<open>(None, None)\<close>, and with an exception when a
  name is not UTF-8. Each round moves the offset forward inside the buffer
  (\<open>getfield_progress\<close>), which is the termination argument.
\<close>

function followed_tags_loop ::
  "(bytes \<Rightarrow> 's option) \<Rightarrow> ('s \<Rightarrow> 's) \<Rightarrow> bytes \<Rightarrow> int \<Rightarrow> 's set \<Rightarrow> error + 's set" where
  "followed_tags_loop decode lower chunk offset tgs =
     (case getfield chunk ''\"name\":'' offset of
        None \<Rightarrow> Inr tgs
      | Some (next_tag, offset') \<Rightarrow>
          (case decode next_tag of
             None \<Rightarrow> Inl UnicodeDecodeError
           | Some str \<Rightarrow>
               followed_tags_loop decode lower chunk offset' (insert (lower str) tgs)))"
  by pat_completeness auto
termination
proof (relation "measure (\<lambda>(decode, lower, chunk, offset, tgs). nat (int (length chunk) - offset))")
  show "wf (measure (\<lambda>(decode::bytes \<Rightarrow> 's option, lower::'s \<Rightarrow> 's, chunk::bytes, offset::int, tgs::'s set).
          nat (int (length chunk) - offset)))"
    by simp
next
  fix decode :: "bytes \<Rightarrow> 's option" and lower :: "'s \<Rightarrow> 's" and chunk :: bytes
    and offset :: int and tgs :: "'s set" and x2 x y str
  assume "getfield chunk ''\"name\":'' offset = Some x2" "(x, y) = x2"
  then have "getfield chunk ''\"name\":'' offset = Some (x, y)" by simp
  from getfield_progress[OF this]
  show "((decode, lower, chunk, y, insert (lower str) tgs), (decode, lower, chunk, offset, tgs))
          \<in> measure (\<lambda>(decode, lower, chunk, offset, tgs). nat (int (length chunk) - offset))"
    by simp
qed

declare followed_tags_loop.simps [simp del]

text \<open>
  What the request of \<open>followed_tags\<close> yields: an exception of the HTTP client, or the
  first line of the response body (empty at end of stream).
\<close>

datatype response = RequestFailed | FirstLine bytes

text \<open>
  \<open>followed_tags()\<close>, given what the request yields: it raises, or returns \<open>None\<close> (for
  an empty line) or a set.
\<close>

definition followed_tags ::
  "(bytes \<Rightarrow> 's option) \<Rightarrow> ('s \<Rightarrow> 's) \<Rightarrow> response \<Rightarrow> error + 's set option" where
  "followed_tags decode lower r =
     (case r of
        RequestFailed \<Rightarrow> Inl ClientError
      | FirstLine chunk \<Rightarrow>
          if length chunk = 0 then Inr None
          else (case followed_tags_loop decode lower chunk 0 {} of
                  Inl e \<Rightarrow> Inl e
                | Inr tgs \<Rightarrow> Inr (Some tgs)))"

text \<open>
  One round of \<open>update_tags\<close> after its sleep: \<open>self.tags = await self.followed_tags()\<close>.
  The loop has no \<open>try\<close>: an exception (\<open>Inl\<close>) ends the loop and its task, with the
  user as it was.
\<close>

definition update_tags_round ::
  "(bytes \<Rightarrow> 's option) \<Rightarrow> ('s \<Rightarrow> 's) \<Rightarrow> response \<Rightarrow> 's user \<Rightarrow> error + 's user" where
  "update_tags_round decode lower r u =
     (case followed_tags decode lower r of
        Inl e \<Rightarrow> Inl e
      | Inr t \<Rightarrow> Inr (u\<lparr>tags := t\<rparr>))"

text \<open>
  C2 (the code does not do this). An empty response replaces the tag set by \<open>None\<close>, a
  response without any \<open>name\<close> field (an error body) replaces it by the empty set, and a
  failed request ends the refresh loop.
\<close>

theorem update_tags_round_replaces_or_stops:
  "update_tags_round decode lower (FirstLine []) u = Inr (u\<lparr>tags := None\<rparr>)
   \<and> update_tags_round decode lower (FirstLine ''{\"error\":\"denied\"}'') u = Inr (u\<lparr>tags := Some {}\<rparr>)
   \<and> update_tags_round decode lower RequestFailed u = Inl ClientError"
proof -
  have g: "getfield ''{\"error\":\"denied\"}'' ''\"name\":'' 0 = None" by code_simp
  have "followed_tags_loop decode lower ''{\"error\":\"denied\"}'' 0 {} = Inr {}"
    by (subst followed_tags_loop.simps) (simp add: g)
  then show ?thesis
    by (simp add: update_tags_round_def followed_tags_def)
qed


section \<open>The dedup cache\<close>

text \<open>
  The invariant of the cache: the keys of \<open>posts\<close> are the elements of \<open>posts_order\<close>,
  there are as many of the one as of the other, and no more than
  \<open>DUPLICATE_HISTORY_LENGTH\<close>.
\<close>

definition cache_inv :: "'s state \<Rightarrow> bool" where
  "cache_inv s \<longleftrightarrow>
     dom (posts s) = set (posts_order s)
     \<and> card (dom (posts s)) = length (posts_order s)
     \<and> int (length (posts_order s)) \<le> DUPLICATE_HISTORY_LENGTH"

text \<open>The globals when the module has been loaded.\<close>

definition initial :: "'s state" where
  "initial = \<lparr>post_count = 0, servers = Map.empty, total = 0, posts = Map.empty,
               posts_order = [], users = []\<rparr>"

text \<open>
  A stream worker hands one payload after the other to \<open>process_update\<close>; \<open>run\<close> is
  the state after a list of payloads, or \<open>None\<close> when one of the calls does not return.
\<close>

fun run ::
  "(bytes \<Rightarrow> 's option) \<Rightarrow> ('s \<Rightarrow> 's) \<Rightarrow> 's state \<Rightarrow> bytes list \<Rightarrow> 's state option" where
  "run decode lower s [] = Some s"
| "run decode lower s (d # ds) =
     (case process_update decode lower s d of
        None \<Rightarrow> None
      | Some (s', _) \<Rightarrow> run decode lower s' ds)"

lemma cache_inv_distinct:
  assumes "cache_inv s"
  shows "distinct (posts_order s)"
proof -
  from assms have "card (set (posts_order s)) = length (posts_order s)"
    unfolding cache_inv_def by metis
  then show ?thesis by (rule card_distinct)
qed

lemma cache_inv_initial: "cache_inv initial"
  by (simp add: cache_inv_def initial_def DUPLICATE_HISTORY_LENGTH_def)

lemma evict_inv:
  assumes "dom ps = set order" "distinct order"
  shows "\<exists>ps'. evict ps order
            = (ps', drop (length order - nat DUPLICATE_HISTORY_LENGTH) order, None)
          \<and> dom ps' = set (drop (length order - nat DUPLICATE_HISTORY_LENGTH) order)"
  using assms
proof (induction order arbitrary: ps)
  case Nil
  then show ?case by simp
next
  case (Cons x rest)
  show ?case
  proof (cases "int (length (x # rest)) > DUPLICATE_HISTORY_LENGTH")
    case True
    then have k: "length (x # rest) - nat DUPLICATE_HISTORY_LENGTH
                    = Suc (length rest - nat DUPLICATE_HISTORY_LENGTH)"
      by (simp add: DUPLICATE_HISTORY_LENGTH_def)
    from Cons.prems have "x \<in> dom ps" by simp
    then have x: "ps x \<noteq> None" by (simp only: domIff not_False_eq_True)
    from Cons.prems have "dom (ps(x := None)) = set rest" "distinct rest" by auto
    from Cons.IH[OF this] obtain ps' where
      "evict (ps(x := None)) rest
         = (ps', drop (length rest - nat DUPLICATE_HISTORY_LENGTH) rest, None)"
      "dom ps' = set (drop (length rest - nat DUPLICATE_HISTORY_LENGTH) rest)" by blast
    with True x show ?thesis unfolding k by simp
  next
    case False
    then have "length (x # rest) - nat DUPLICATE_HISTORY_LENGTH = 0"
      by (simp add: DUPLICATE_HISTORY_LENGTH_def)
    with False Cons.prems show ?thesis by simp
  qed
qed

text \<open>The cache after a fresh id has gone in: \<open>posts_order\<close> and the keys of \<open>posts\<close>.\<close>

definition inserted :: "bytes list \<Rightarrow> bytes \<Rightarrow> bytes list" where
  "inserted order url =
     drop (length (order @ [url]) - nat DUPLICATE_HISTORY_LENGTH) (order @ [url])"

lemma evict_fresh:
  assumes "cache_inv s" "posts s url = None"
  shows "\<exists>ps'. evict ((posts s)(url \<mapsto> (url, []))) (posts_order s @ [url])
            = (ps', inserted (posts_order s) url, None)
          \<and> dom ps' = set (inserted (posts_order s) url)"
proof -
  from assms have "url \<notin> set (posts_order s)" by (auto simp: cache_inv_def)
  with assms(1) have "distinct (posts_order s @ [url])"
    by (simp add: cache_inv_distinct)
  moreover from assms(1) have "dom ((posts s)(url \<mapsto> (url, []))) = set (posts_order s @ [url])"
    by (simp add: cache_inv_def)
  ultimately show ?thesis unfolding inserted_def by (rule evict_inv[rotated])
qed

lemma inserted_props:
  assumes "int (length order) \<le> DUPLICATE_HISTORY_LENGTH" "distinct order" "url \<notin> set order"
  shows "distinct (inserted order url)"
    and "int (length (inserted order url)) \<le> DUPLICATE_HISTORY_LENGTH"
    and "url \<in> set (inserted order url)"
proof -
  have "distinct (order @ [url])" using assms(2,3) by simp
  then show "distinct (inserted order url)" unfolding inserted_def by (rule distinct_drop)
  show "int (length (inserted order url)) \<le> DUPLICATE_HISTORY_LENGTH"
    using assms(1) by (simp add: inserted_def DUPLICATE_HISTORY_LENGTH_def)
  have "length (order @ [url]) - nat DUPLICATE_HISTORY_LENGTH \<le> length order"
    by (simp add: DUPLICATE_HISTORY_LENGTH_def)
  then have "inserted order url
      = drop (length (order @ [url]) - nat DUPLICATE_HISTORY_LENGTH) order @ [url]"
    by (simp add: inserted_def)
  then show "url \<in> set (inserted order url)" by simp
qed


section \<open>What one call of \<open>process_update\<close> does\<close>

lemma fan_out_frame:
  assumes "fan_out decode lower s data url = Some (s', e)"
  shows "posts s' = posts s \<and> posts_order s' = posts_order s \<and> total s' = total s
         \<and> servers s' = servers s \<and> post_count s' = post_count s"
  using assms
  by (auto simp: fan_out_def Let_def split: option.splits sum.splits if_splits prod.splits)

lemma fan_out_no_tags:
  assumes "getlist data ''\"tags\":'' = Some []"
  shows "fan_out decode lower s data url = Some (s, None)"
  using assms by (simp add: fan_out_def)

lemma count_post_fields:
  "posts (count_post s url) = posts s"
  "posts_order (count_post s url) = posts_order s"
  "users (count_post s url) = users s"
  "total (count_post s url) = total s + 1"
  "post_count (count_post s url) = post_count s + 1"
  "servers (count_post s url) = (servers s)(server_of url \<mapsto>
      (case servers s (server_of url) of Some c \<Rightarrow> c + 1 | None \<Rightarrow> 1))"
  by (simp_all add: count_post_def Let_def)

lemma process_update_no_uri:
  "getfield data ''\"uri\":'' 0 = None \<Longrightarrow> process_update decode lower s data = Some (s, None)"
  by (simp add: process_update_def)

lemma process_update_seen:
  "getfield data ''\"uri\":'' 0 = Some (url, n) \<Longrightarrow> posts s url \<noteq> None \<Longrightarrow>
     process_update decode lower s data = Some (s, None)"
  by (simp add: process_update_def)

lemma process_update_fresh:
  assumes "cache_inv s" "getfield data ''\"uri\":'' 0 = Some (url, n)" "posts s url = None"
  shows "\<exists>ps'. dom ps' = set (inserted (posts_order s) url)
           \<and> process_update decode lower s data
               = fan_out decode lower
                   (count_post (s\<lparr>posts := ps', posts_order := inserted (posts_order s) url\<rparr>) url)
                   data url"
proof -
  from evict_fresh[OF assms(1,3)] obtain ps' where
    ev: "evict ((posts s)(url \<mapsto> (url, []))) (posts_order s @ [url])
           = (ps', inserted (posts_order s) url, None)"
    and d: "dom ps' = set (inserted (posts_order s) url)" by blast
  have "process_update decode lower s data
          = fan_out decode lower
              (count_post (s\<lparr>posts := ps', posts_order := inserted (posts_order s) url\<rparr>) url)
              data url"
    unfolding process_update_def using assms(2,3) ev by simp
  with d show ?thesis by blast
qed

lemma process_update_cache:
  assumes "cache_inv s" "process_update decode lower s data = Some (s', e)"
  shows "cache_inv s'
         \<and> posts_order s' =
             (case getfield data ''\"uri\":'' 0 of
                None \<Rightarrow> posts_order s
              | Some (url, n) \<Rightarrow>
                  if posts s url \<noteq> None then posts_order s else inserted (posts_order s) url)"
proof (cases "getfield data ''\"uri\":'' 0")
  case None
  with assms process_update_no_uri[OF None, of decode lower s] show ?thesis by simp
next
  case (Some p)
  obtain url n where p: "p = (url, n)" by (cases p)
  note g = Some[unfolded p]
  show ?thesis
  proof (cases "posts s url = None")
    case False
    with assms process_update_seen[OF g False, of decode lower] g show ?thesis by simp
  next
    case True
    from process_update_fresh[OF assms(1) g True, of decode lower] assms(2) obtain ps' where
      d: "dom ps' = set (inserted (posts_order s) url)"
      and f: "fan_out decode lower
                (count_post (s\<lparr>posts := ps', posts_order := inserted (posts_order s) url\<rparr>) url)
                data url = Some (s', e)" by auto
    from fan_out_frame[OF f] have ps: "posts s' = ps'"
      and po: "posts_order s' = inserted (posts_order s) url"
      by (simp_all add: count_post_fields)
    from assms(1) True have fresh: "url \<notin> set (posts_order s)" by (auto simp: cache_inv_def)
    from assms(1) have le: "int (length (posts_order s)) \<le> DUPLICATE_HISTORY_LENGTH"
      by (simp add: cache_inv_def)
    note ip = inserted_props[OF le cache_inv_distinct[OF assms(1)] fresh]
    have "card (dom (posts s')) = length (posts_order s')"
      unfolding ps po d using ip(1) by (rule distinct_card)
    with d ip(2) have "cache_inv s'" unfolding cache_inv_def ps po by simp
    with po g True show ?thesis by simp
  qed
qed


text \<open>The post id of a payload: the value of its \<open>uri\<close> field, if \<open>getfield\<close> finds one.\<close>

definition uri_of :: "bytes \<Rightarrow> bytes option" where
  "uri_of data = map_option fst (getfield data ''\"uri\":'' 0)"

lemma uri_of_Some: "uri_of data = Some url \<longleftrightarrow> (\<exists>n. getfield data ''\"uri\":'' 0 = Some (url, n))"
  by (auto simp: uri_of_def)

lemma process_update_returns:
  assumes "getlist data ''\"tags\":'' \<noteq> None"
  shows "\<exists>s' e. process_update decode lower s data = Some (s', e)"
proof -
  have "\<exists>s' e. fan_out decode lower t data url = Some (s', e)" for t url
    using assms
    by (auto simp: fan_out_def Let_def split: option.splits sum.splits prod.splits)
  then show ?thesis
    unfolding process_update_def
    by (auto split: option.splits prod.splits)
qed

lemma last_n_step:
  "drop (length (drop (length L - c) L @ us) - c) (drop (length L - c) L @ us)
     = drop (length (L @ us) - c) (L @ us)"
proof (cases "length L \<le> c")
  case True
  then show ?thesis by simp
next
  case False
  then have "length (L @ us) - c = length us + (length L - c)" by simp
  then have "drop (length (L @ us) - c) (L @ us) = drop (length us) (drop (length L - c) (L @ us))"
    by (simp only: drop_drop)
  also have "\<dots> = drop (length us) (drop (length L - c) L @ us)" by simp
  finally show ?thesis using False by simp
qed

lemma distinct_drop_append: "distinct (L @ us) \<Longrightarrow> distinct (drop k L @ us)"
  by (auto simp: distinct_drop dest: in_set_dropD)

lemma run_fifo:
  assumes "cache_inv s" "run decode lower s datas = Some sn"
    and "map uri_of datas = map Some ids" "distinct (posts_order s @ ids)"
  shows "cache_inv sn
         \<and> posts_order sn
             = drop (length (posts_order s @ ids) - nat DUPLICATE_HISTORY_LENGTH)
                 (posts_order s @ ids)"
  using assms
proof (induction datas arbitrary: s ids)
  case Nil
  then have "int (length (posts_order s)) \<le> DUPLICATE_HISTORY_LENGTH"
    by (simp add: cache_inv_def)
  then have "length (posts_order s) - nat DUPLICATE_HISTORY_LENGTH = 0" by simp
  with Nil show ?case by simp
next
  case (Cons d ds)
  from Cons.prems(3) obtain u us where ids: "ids = u # us"
    and u: "uri_of d = Some u" and us: "map uri_of ds = map Some us" by (cases ids) auto
  from u obtain n where g: "getfield d ''\"uri\":'' 0 = Some (u, n)" by (auto simp: uri_of_Some)
  from Cons.prems(2) obtain s1 e where
    p: "process_update decode lower s d = Some (s1, e)"
    and r: "run decode lower s1 ds = Some sn"
    by (auto split: option.splits)
  from Cons.prems(4) ids have "u \<notin> set (posts_order s)" by simp
  with Cons.prems(1) have fresh: "posts s u = None" by (auto simp: cache_inv_def)
  from process_update_cache[OF Cons.prems(1) p] g fresh
  have inv1: "cache_inv s1" and po1: "posts_order s1 = inserted (posts_order s) u" by simp_all
  have "distinct ((posts_order s @ [u]) @ us)" using Cons.prems(4) ids by simp
  then have d1: "distinct (posts_order s1 @ us)"
    unfolding po1 inserted_def by (rule distinct_drop_append)
  from Cons.IH[OF inv1 r us d1]
  have "cache_inv sn" and
    "posts_order sn = drop (length (posts_order s1 @ us) - nat DUPLICATE_HISTORY_LENGTH)
                        (posts_order s1 @ us)" by simp_all
  moreover have "drop (length (posts_order s1 @ us) - nat DUPLICATE_HISTORY_LENGTH)
                        (posts_order s1 @ us)
      = drop (length ((posts_order s @ [u]) @ us) - nat DUPLICATE_HISTORY_LENGTH)
          ((posts_order s @ [u]) @ us)"
    unfolding po1 inserted_def by (rule last_n_step)
  ultimately show ?case using ids by simp
qed


lemma run_returns:
  assumes "\<forall>d\<in>set datas. getlist d ''\"tags\":'' \<noteq> None"
  shows "\<exists>sn. run decode lower s datas = Some sn"
  using assms
proof (induction datas arbitrary: s)
  case Nil
  then show ?case by simp
next
  case (Cons d ds)
  then have "getlist d ''\"tags\":'' \<noteq> None" by simp
  from process_update_returns[OF this, of decode lower s] obtain s1 e where
    "process_update decode lower s d = Some (s1, e)" by blast
  moreover from Cons obtain sn where "run decode lower s1 ds = Some sn" by fastforce
  ultimately show ?case by simp
qed

lemma process_update_at_capacity:
  assumes "cache_inv s" "int (length (posts_order s)) = DUPLICATE_HISTORY_LENGTH"
    and "uri_of data = Some url" "posts s url = None"
    and "process_update decode lower s data = Some (s', e)"
  shows "posts_order s' = tl (posts_order s) @ [url] \<and> posts s' (hd (posts_order s)) = None"
proof -
  from assms(3) obtain n where g: "getfield data ''\"uri\":'' 0 = Some (url, n)"
    by (auto simp: uri_of_Some)
  from process_update_cache[OF assms(1,5)] g assms(4)
  have inv: "cache_inv s'" and po: "posts_order s' = inserted (posts_order s) url" by simp_all
  from assms(2) have ne: "posts_order s \<noteq> []" by (auto simp: DUPLICATE_HISTORY_LENGTH_def)
  from assms(2) have "length (posts_order s @ [url]) - nat DUPLICATE_HISTORY_LENGTH = 1"
    by simp
  then have "inserted (posts_order s) url = drop 1 (posts_order s @ [url])"
    by (simp only: inserted_def)
  with ne have ins: "inserted (posts_order s) url = tl (posts_order s) @ [url]"
    by (cases "posts_order s") simp_all
  from assms(1,4) have fresh: "url \<notin> set (posts_order s)" by (auto simp: cache_inv_def)
  from cache_inv_distinct[OF assms(1)] ne have "hd (posts_order s) \<notin> set (tl (posts_order s))"
    by (cases "posts_order s") auto
  moreover from fresh ne have "hd (posts_order s) \<noteq> url" by (cases "posts_order s") auto
  ultimately have "hd (posts_order s) \<notin> set (posts_order s')" unfolding po ins by simp
  with inv have "hd (posts_order s) \<notin> dom (posts s')" by (simp add: cache_inv_def)
  then have "posts s' (hd (posts_order s)) = None" by (simp only: domIff not_not)
  with po ins show ?thesis by simp
qed

section \<open>The fan-out\<close>

lemma queue_post_with_tag_set:
  assumes "tags u = Some own" "decode url \<noteq> None"
  shows "queue_post decode tgs url u
           = Inr (if own \<inter> tgs \<noteq> {} then u\<lparr>posts_queue := posts_queue u @ [url]\<rparr> else u)"
  using assms by (auto simp: queue_post_def Let_def)

text \<open>
  When every user holds a tag set and the post id decodes, the loop visits every user:
  a user whose set meets the tags of the post gets the id appended once, every other
  user is left as it was, and no exception is raised.
\<close>

lemma route_fan_out:
  assumes "\<forall>u\<in>set us. tags u \<noteq> None" "decode url \<noteq> None"
  shows "route decode tgs url us
           = (map (\<lambda>u. if the (tags u) \<inter> tgs \<noteq> {}
                         then u\<lparr>posts_queue := posts_queue u @ [url]\<rparr> else u) us, None)"
  using assms
proof (induction us)
  case Nil
  then show ?case by simp
next
  case (Cons u us)
  from Cons.prems obtain own where own: "tags u = Some own" by auto
  from Cons.prems Cons.IH have
    "route decode tgs url us
       = (map (\<lambda>u. if the (tags u) \<inter> tgs \<noteq> {}
                     then u\<lparr>posts_queue := posts_queue u @ [url]\<rparr> else u) us, None)"
    by simp
  with own Cons.prems(2) show ?case
    by (simp add: queue_post_with_tag_set)
qed

text \<open>
  The example of the specification: users following \<open>{a}\<close>, \<open>{b}\<close> and \<open>{a, b}\<close>, a
  post tagged \<open>{b}\<close>.
\<close>

lemma route_example:
  "map posts_queue (fst (route Some {''b''} url
       [\<lparr>server = ''one.example'', tags = Some {''a''}, posts_queue = []\<rparr>,
        \<lparr>server = ''two.example'', tags = Some {''b''}, posts_queue = []\<rparr>,
        \<lparr>server = ''three.example'', tags = Some {''a'', ''b''}, posts_queue = []\<rparr>]))
     = [[], [url], [url]]"
  by (simp add: queue_post_def)

text \<open>\<open>getlist\<close> returns for the tag list of every payload of the list.\<close>

definition tag_lists_return :: "bytes list \<Rightarrow> bool" where
  "tag_lists_return datas \<longleftrightarrow> (\<forall>d\<in>set datas. getlist d ''\"tags\":'' \<noteq> None)"

lemma process_update_fresh_diverges:
  assumes "cache_inv s" "uri_of data = Some url" "posts s url = None"
    and "getlist data ''\"tags\":'' = None"
  shows "process_update decode lower s data = None"
proof -
  from assms(2) obtain n where g: "getfield data ''\"uri\":'' 0 = Some (url, n)"
    by (auto simp: uri_of_Some)
  from process_update_fresh[OF assms(1) g assms(3), of decode lower] assms(4)
  show ?thesis by (auto simp: fan_out_def)
qed

lemma run_returns_all:
  assumes "tag_lists_return datas"
  shows "\<exists>sn. run decode lower s datas = Some sn"
  using assms unfolding tag_lists_return_def by (rule run_returns)

lemma occurs_at_set: "occurs_at sub data i \<Longrightarrow> set sub \<subseteq> set data"
proof -
  assume "occurs_at sub data i"
  then have "sub = take (length sub) (drop i data)" by (simp add: occurs_at_def)
  then have "set sub \<subseteq> set (drop i data)" by (metis set_take_subset)
  then show ?thesis using set_drop_subset by fastforce
qed

section \<open>Example data\<close>

text \<open>Example data: a post id, two payloads that carry it, and a user who follows \<open>b\<close>.\<close>

definition uri_1 :: bytes where
  "uri_1 = ''https://a.example/1''"

definition untagged_post :: bytes where
  "untagged_post = ''{\"uri\":\"https://a.example/1\",\"tags\":[]}''"

definition tagged_post :: bytes where
  "tagged_post = ''{\"uri\":\"https://a.example/1\",\"tags\":[{\"name\":\"b\"}]}''"

definition follower_of_b :: "string user" where
  "follower_of_b = \<lparr>server = ''one.example'', tags = Some {''b''}, posts_queue = []\<rparr>"

text \<open>
  Example data for the cache: a cache that holds \<open>uri_1\<close>, and a full cache of
  \<open>DUPLICATE_HISTORY_LENGTH\<close> ids (the strings of \<open>n\<close> letters \<open>x\<close>, the oldest being the
  empty one).
\<close>

definition seen_uri_1 :: "string state" where
  "seen_uri_1 = initial\<lparr>posts := [uri_1 \<mapsto> (uri_1, [])], posts_order := [uri_1],
                          users := [follower_of_b]\<rparr>"

definition old_ids :: "bytes list" where
  "old_ids = map (\<lambda>n. replicate n CHR ''x'') [0..<1000]"

definition full_cache :: "string state" where
  "full_cache = initial\<lparr>posts := (\<lambda>k. if k \<in> set old_ids then Some (k, []) else None),
                          posts_order := old_ids, users := [follower_of_b]\<rparr>"

lemma old_ids_props:
  "length old_ids = 1000" "distinct old_ids" "uri_1 \<notin> set old_ids"
proof -
  show "length old_ids = 1000" by (simp add: old_ids_def)
  have "inj_on (\<lambda>n. replicate n CHR ''x'') (set [0..<1000])"
    by (rule inj_onI) (metis length_replicate)
  then show "distinct old_ids" by (simp add: old_ids_def distinct_map)
  have "CHR ''h'' \<in> set uri_1" by (simp add: uri_1_def)
  moreover have "CHR ''h'' \<notin> set k" if "k \<in> set old_ids" for k
    using that by (auto simp: old_ids_def)
  ultimately show "uri_1 \<notin> set old_ids" by blast
qed

lemma full_cache_inv: "cache_inv full_cache"
proof -
  have "dom (posts full_cache) = set (posts_order full_cache)"
    by (auto simp: full_cache_def dom_def)
  moreover have "card (set (posts_order full_cache)) = length (posts_order full_cache)"
    using old_ids_props(2) by (simp add: full_cache_def distinct_card)
  moreover have "int (length (posts_order full_cache)) \<le> DUPLICATE_HISTORY_LENGTH"
    using old_ids_props(1) by (simp add: full_cache_def DUPLICATE_HISTORY_LENGTH_def)
  ultimately show ?thesis by (simp add: cache_inv_def)
qed

text \<open>
  A long run: \<open>post_of u\<close> is a payload with the post id \<open>u\<close> and no tag list;
  \<open>many_posts\<close> are 1001 of them, with the ids \<open>x\<close>, \<open>xx\<close>, and so on.
\<close>

definition post_of :: "bytes \<Rightarrow> bytes" where
  "post_of u = ''{\"uri\":\"'' @ u @ ''\"}''"

definition many_ids :: "bytes list" where
  "many_ids = map (\<lambda>n. replicate n CHR ''x'') [1..<1002]"

definition many_posts :: "bytes list" where
  "many_posts = map post_of many_ids"

lemma uri_of_post_of:
  assumes "dq \<notin> set u"
  shows "uri_of (post_of u) = Some u"
proof -
  have s0: "scan_start 0 (post_of u) = 0" by (simp add: scan_start_def start_index_def)
  have l6: "length ''\"uri\":'' = 6" by simp
  have o1: "occurs_at ''\"uri\":'' (post_of u) 1"
    by (simp add: occurs_at_def post_of_def)
  have o0: "\<not> occurs_at ''\"uri\":'' (post_of u) 0"
    by (simp add: occurs_at_def post_of_def)
  have f: "first_occ ''\"uri\":'' (post_of u) (scan_start 0 (post_of u)) 1"
    unfolding s0 first_occ_iff using o1 o0 by auto
  have d: "drop (1 + length ''\"uri\":'') (post_of u) = [] @ dq # u @ dq # ''}''"
    by (simp add: post_of_def dq_def)
  have n: "take 4 (drop (1 + length ''\"uri\":'') (post_of u)) \<noteq> ''null''"
    unfolding d by (simp add: dq_def)
  have "getfield (post_of u) ''\"uri\":'' 0
          = Some (u, int (1 + length ''\"uri\":'' + length ([]::bytes) + length u + 2))"
    using f n d _ assms by (rule getfield_SomeI) simp
  then show ?thesis by (simp add: uri_of_def)
qed

lemma getlist_post_of:
  assumes "CHR ''t'' \<notin> set u"
  shows "getlist (post_of u) ''\"tags\":'' = Some []"
proof -
  have "CHR ''t'' \<notin> set (post_of u)" using assms by (simp add: post_of_def)
  moreover have "CHR ''t'' \<in> set ''\"tags\":''" by simp
  ultimately have "\<not> occurs_at ''\"tags\":'' (post_of u) i" for i
    using occurs_at_set[of "''\"tags\":''" "post_of u" i] by blast
  then have "find_from (post_of u) ''\"tags\":'' 0 = - 1"
    by (intro find_from_absent) simp
  then show ?thesis by (simp add: getlist_def)
qed

lemma many_ids_props:
  "length many_ids = 1001" "distinct many_ids"
  "map uri_of many_posts = map Some many_ids" "tag_lists_return many_posts"
proof -
  show "length many_ids = 1001" by (simp add: many_ids_def)
  have "inj_on (\<lambda>n. replicate n CHR ''x'') (set [1..<1002])"
    by (rule inj_onI) (metis length_replicate)
  then show "distinct many_ids" by (simp add: many_ids_def distinct_map)
  have x: "dq \<notin> set u \<and> CHR ''t'' \<notin> set u" if "u \<in> set many_ids" for u
    using that by (auto simp: many_ids_def dq_def)
  show "map uri_of many_posts = map Some many_ids"
    unfolding many_posts_def using x by (simp add: uri_of_post_of)
  show "tag_lists_return many_posts"
    unfolding tag_lists_return_def many_posts_def using x by (simp add: getlist_post_of)
qed


section \<open>Claims about the ingest pipeline\<close>

text \<open>
  C7. A payload with a fresh post id whose tag list is empty: the call returns without
  an exception, the id is in the cache, \<open>total\<close>, \<open>post_count\<close> and the count of the
  post's server have gone up by one, and the users, their queues with them, are as
  before. (The state is one the program can be in: the invariant of the cache holds.)
\<close>

theorem untagged_post_is_counted_not_routed:
  assumes "cache_inv s" "uri_of data = Some url" "posts s url = None"
    and "getlist data ''\"tags\":'' = Some []"
  shows "\<exists>s'. process_update decode lower s data = Some (s', None)
           \<and> posts s' url \<noteq> None
           \<and> posts_order s' = inserted (posts_order s) url
           \<and> total s' = total s + 1
           \<and> post_count s' = post_count s + 1
           \<and> servers s' = (servers s)(server_of url \<mapsto>
                 (case servers s (server_of url) of Some c \<Rightarrow> c + 1 | None \<Rightarrow> 1))
           \<and> users s' = users s"
proof -
  from assms(2) obtain n where g: "getfield data ''\"uri\":'' 0 = Some (url, n)"
    by (auto simp: uri_of_Some)
  from process_update_fresh[OF assms(1) g assms(3), of decode lower] obtain ps' where
    d: "dom ps' = set (inserted (posts_order s) url)"
    and p: "process_update decode lower s data
              = fan_out decode lower
                  (count_post (s\<lparr>posts := ps', posts_order := inserted (posts_order s) url\<rparr>) url)
                  data url" by blast
  define s' where
    "s' = count_post (s\<lparr>posts := ps', posts_order := inserted (posts_order s) url\<rparr>) url"
  have r: "process_update decode lower s data = Some (s', None)"
    unfolding p s'_def using assms(4) by (rule fan_out_no_tags)
  from assms(1,3) have fresh: "url \<notin> set (posts_order s)" by (auto simp: cache_inv_def)
  from assms(1) have le: "int (length (posts_order s)) \<le> DUPLICATE_HISTORY_LENGTH"
    by (simp add: cache_inv_def)
  from inserted_props(3)[OF le cache_inv_distinct[OF assms(1)] fresh] d
  have "url \<in> dom ps'" by simp
  then have "posts s' url \<noteq> None" by (auto simp: s'_def count_post_fields)
  moreover have "posts_order s' = inserted (posts_order s) url"
    "total s' = total s + 1" "post_count s' = post_count s + 1" "users s' = users s"
    "servers s' = (servers s)(server_of url \<mapsto>
                 (case servers s (server_of url) of Some c \<Rightarrow> c + 1 | None \<Rightarrow> 1))"
    by (simp_all add: s'_def count_post_fields)
  ultimately show ?thesis using r by blast
qed

theorem untagged_post_is_counted_not_routed_witness:
  "cache_inv (initial\<lparr>users := [follower_of_b]\<rparr>)
   \<and> uri_of untagged_post = Some uri_1
   \<and> posts (initial\<lparr>users := [follower_of_b]\<rparr>) uri_1 = None
   \<and> getlist untagged_post ''\"tags\":'' = Some []
   \<and> (\<exists>s'. process_update Some id (initial\<lparr>users := [follower_of_b]\<rparr>) untagged_post
              = Some (s', None)
          \<and> posts s' uri_1 \<noteq> None
          \<and> posts_order s' = [uri_1]
          \<and> total s' = 1 \<and> post_count s' = 1
          \<and> servers s' ''a.example'' = Some 1
          \<and> users s' = [follower_of_b])"
proof -
  let ?s = "initial\<lparr>users := [follower_of_b]\<rparr>"
  have i: "cache_inv ?s"
    by (simp add: cache_inv_def initial_def DUPLICATE_HISTORY_LENGTH_def)
  have u: "uri_of untagged_post = Some uri_1" by code_simp
  have p: "posts ?s uri_1 = None" by (simp add: initial_def)
  have g: "getlist untagged_post ''\"tags\":'' = Some []" by code_simp
  have sv: "server_of uri_1 = ''a.example''" by code_simp
  from untagged_post_is_counted_not_routed[OF i u p g, of Some id] obtain s' where
    r: "process_update Some id ?s untagged_post = Some (s', None)"
    and f: "posts s' uri_1 \<noteq> None"
      "posts_order s' = inserted (posts_order ?s) uri_1"
      "total s' = total ?s + 1" "post_count s' = post_count ?s + 1"
      "servers s' = (servers ?s)(server_of uri_1 \<mapsto>
                 (case servers ?s (server_of uri_1) of Some c \<Rightarrow> c + 1 | None \<Rightarrow> 1))"
      "users s' = users ?s" by blast
  have "posts_order s' = [uri_1]" "total s' = 1" "post_count s' = 1"
    "servers s' ''a.example'' = Some 1" "users s' = [follower_of_b]"
    unfolding f sv by (simp_all add: initial_def inserted_def DUPLICATE_HISTORY_LENGTH_def)
  with r f(1) have "\<exists>s'. process_update Some id ?s untagged_post = Some (s', None)
          \<and> posts s' uri_1 \<noteq> None
          \<and> posts_order s' = [uri_1]
          \<and> total s' = 1 \<and> post_count s' = 1
          \<and> servers s' ''a.example'' = Some 1
          \<and> users s' = [follower_of_b]"
    by (intro exI[of _ s'] conjI)
  with i u p g show ?thesis by (intro conjI)
qed


text \<open>
  C8. A payload whose post id is in the cache: the call returns without an exception and
  the whole state (cache, counters, users and their queues) is as before.
\<close>

theorem process_update_duplicate_is_dropped:
  "uri_of data = Some url \<Longrightarrow> posts s url \<noteq> None \<Longrightarrow>
     process_update decode lower s data = Some (s, None)"
  by (auto simp: uri_of_Some intro: process_update_seen)

theorem process_update_duplicate_is_dropped_witness:
  "uri_of tagged_post = Some uri_1
   \<and> posts (initial\<lparr>posts := [uri_1 \<mapsto> (uri_1, [])], posts_order := [uri_1],
                     users := [follower_of_b]\<rparr>) uri_1 \<noteq> None
   \<and> process_update Some id
        (initial\<lparr>posts := [uri_1 \<mapsto> (uri_1, [])], posts_order := [uri_1],
                  users := [follower_of_b]\<rparr>) tagged_post
      = Some (initial\<lparr>posts := [uri_1 \<mapsto> (uri_1, [])], posts_order := [uri_1],
                        users := [follower_of_b]\<rparr>, None)"
proof -
  have u: "uri_of tagged_post = Some uri_1" by code_simp
  have p: "posts (initial\<lparr>posts := [uri_1 \<mapsto> (uri_1, [])], posts_order := [uri_1],
                     users := [follower_of_b]\<rparr>) uri_1 \<noteq> None"
    by simp
  from u p process_update_duplicate_is_dropped[OF u p, of Some id] show ?thesis
    by (intro conjI)
qed

text \<open>
  C3 (the code does not do this for every collection of users). A user whose \<open>tags\<close>
  is \<open>None\<close>, which is what an empty response to the tag request leaves behind, makes
  \<open>queue_post\<close> raise; the exception leaves the loop over the users, and the users
  behind that one do not get the post. Here the second user follows \<open>b\<close>, the post is
  tagged \<open>b\<close>, and its queue stays empty.
\<close>

theorem fan_out_stops_at_user_without_tag_set:
  "update_tags_round Some id (FirstLine [])
       \<lparr>server = ''zero.example'', tags = Some {''a''}, posts_queue = []\<rparr>
     = Inr \<lparr>server = ''zero.example'', tags = None, posts_queue = []\<rparr>
   \<and> map_option (\<lambda>(s', e). (map posts_queue (users s'), e))
       (process_update Some id
          (initial\<lparr>users := [\<lparr>server = ''zero.example'', tags = None, posts_queue = []\<rparr>,
                               follower_of_b]\<rparr>)
          tagged_post)
     = Some ([[], []], Some AttributeError)"
proof -
  have g: "getfield tagged_post ''\"uri\":'' 0 = Some (uri_1, 28)" by code_simp
  have l: "getlist tagged_post ''\"tags\":'' = Some [Some ''b'']" by code_simp
  have "process_update Some id
          (initial\<lparr>users := [\<lparr>server = ''zero.example'', tags = None, posts_queue = []\<rparr>,
                               follower_of_b]\<rparr>)
          tagged_post
        = Some (count_post (initial\<lparr>posts := [uri_1 \<mapsto> (uri_1, [])], posts_order := [uri_1],
                  users := [\<lparr>server = ''zero.example'', tags = None, posts_queue = []\<rparr>,
                            follower_of_b]\<rparr>) uri_1, Some AttributeError)"
    by (simp add: process_update_def g l fan_out_def initial_def DUPLICATE_HISTORY_LENGTH_def
        count_post_fields queue_post_def)
  then show ?thesis
    by (simp add: count_post_fields follower_of_b_def update_tags_round_def followed_tags_def)
qed

text \<open>
  C1. A call of \<open>process_update\<close> returns whenever \<open>getlist\<close> returns for its payload
  (and never for a fresh id otherwise, \<open>process_update_fresh_diverges\<close>); the
  statements below show that the result is produced in that case.
  (1) The call returns and the invariant of the cache holds after it; (2) so it does
  after any call that returns. (3) From an empty cache, payloads with the pairwise
  distinct post ids \<open>ids\<close> are all processed, and then \<open>posts_order\<close> is \<open>ids\<close> without
  all but its last \<open>DUPLICATE_HISTORY_LENGTH\<close> elements, in the order of insertion, and
  these are the keys of \<open>posts\<close>. (4) A payload whose id is in the cache returns and
  leaves the cache as it is: its position is not refreshed. (5) With the cache full, a
  fresh id evicts the oldest one and goes to the end.
\<close>

theorem dedup_cache_invariant_and_fifo:
  "(cache_inv s \<and> getlist data ''\"tags\":'' \<noteq> None \<longrightarrow>
      (\<exists>s' e. process_update decode lower s data = Some (s', e) \<and> cache_inv s'))
   \<and> (cache_inv s \<and> process_update decode lower s data = Some (s1, e1) \<longrightarrow> cache_inv s1)
   \<and> (posts s0 = Map.empty \<and> posts_order s0 = [] \<and> map uri_of datas = map Some ids
        \<and> distinct ids \<and> tag_lists_return datas \<longrightarrow>
      (\<exists>sn. run decode lower s0 datas = Some sn
         \<and> cache_inv sn
         \<and> posts_order sn = drop (length ids - nat DUPLICATE_HISTORY_LENGTH) ids
         \<and> dom (posts sn) = set (drop (length ids - nat DUPLICATE_HISTORY_LENGTH) ids)
         \<and> length (posts_order sn) = min (length ids) (nat DUPLICATE_HISTORY_LENGTH)))
   \<and> (uri_of data = Some url \<and> posts s url \<noteq> None \<longrightarrow>
      (\<exists>s' e. process_update decode lower s data = Some (s', e)
         \<and> posts_order s' = posts_order s \<and> posts s' = posts s))
   \<and> (cache_inv s \<and> int (length (posts_order s)) = DUPLICATE_HISTORY_LENGTH
        \<and> uri_of data = Some url \<and> posts s url = None
        \<and> getlist data ''\"tags\":'' \<noteq> None \<longrightarrow>
      (\<exists>s' e. process_update decode lower s data = Some (s', e)
         \<and> posts_order s' = tl (posts_order s) @ [url]
         \<and> posts s' (hd (posts_order s)) = None))"
proof (intro conjI impI)
  assume a: "cache_inv s \<and> getlist data ''\"tags\":'' \<noteq> None"
  then obtain s' e where p: "process_update decode lower s data = Some (s', e)"
    using process_update_returns[of data decode lower s] by blast
  with a process_update_cache[of s decode lower data s' e] have "cache_inv s'" by blast
  with p show "\<exists>s' e. process_update decode lower s data = Some (s', e) \<and> cache_inv s'"
    by blast
next
  assume "cache_inv s \<and> process_update decode lower s data = Some (s1, e1)"
  then show "cache_inv s1" using process_update_cache by blast
next
  assume a: "posts s0 = Map.empty \<and> posts_order s0 = [] \<and> map uri_of datas = map Some ids
        \<and> distinct ids \<and> tag_lists_return datas"
  then obtain sn where r: "run decode lower s0 datas = Some sn"
    using run_returns_all[of datas decode lower s0] by blast
  from a have "cache_inv s0" by (simp add: cache_inv_def DUPLICATE_HISTORY_LENGTH_def)
  moreover from a have "distinct (posts_order s0 @ ids)" by simp
  ultimately have f: "cache_inv sn
         \<and> posts_order sn
             = drop (length (posts_order s0 @ ids) - nat DUPLICATE_HISTORY_LENGTH)
                 (posts_order s0 @ ids)"
    using a r run_fifo[of s0 decode lower datas sn ids] by blast
  with a have inv: "cache_inv sn"
    and po: "posts_order sn = drop (length ids - nat DUPLICATE_HISTORY_LENGTH) ids" by simp_all
  from inv po have dm: "dom (posts sn) = set (drop (length ids - nat DUPLICATE_HISTORY_LENGTH) ids)"
    by (simp add: cache_inv_def)
  from po have ln: "length (posts_order sn) = min (length ids) (nat DUPLICATE_HISTORY_LENGTH)"
    by (simp add: min_def)
  from r inv po dm ln
  show "\<exists>sn. run decode lower s0 datas = Some sn
         \<and> cache_inv sn
         \<and> posts_order sn = drop (length ids - nat DUPLICATE_HISTORY_LENGTH) ids
         \<and> dom (posts sn) = set (drop (length ids - nat DUPLICATE_HISTORY_LENGTH) ids)
         \<and> length (posts_order sn) = min (length ids) (nat DUPLICATE_HISTORY_LENGTH)"
    by blast
next
  assume a: "uri_of data = Some url \<and> posts s url \<noteq> None"
  then obtain n where "getfield data ''\"uri\":'' 0 = Some (url, n)" by (auto simp: uri_of_Some)
  from process_update_seen[OF this, of s decode lower] a
  have "process_update decode lower s data = Some (s, None)" by simp
  then show "\<exists>s' e. process_update decode lower s data = Some (s', e)
         \<and> posts_order s' = posts_order s \<and> posts s' = posts s" by simp
next
  assume a: "cache_inv s \<and> int (length (posts_order s)) = DUPLICATE_HISTORY_LENGTH
        \<and> uri_of data = Some url \<and> posts s url = None
        \<and> getlist data ''\"tags\":'' \<noteq> None"
  then obtain s' e where p: "process_update decode lower s data = Some (s', e)"
    using process_update_returns[of data decode lower s] by blast
  with a process_update_at_capacity[of s data url decode lower s' e]
  have "posts_order s' = tl (posts_order s) @ [url] \<and> posts s' (hd (posts_order s)) = None"
    by blast
  with p show "\<exists>s' e. process_update decode lower s data = Some (s', e)
         \<and> posts_order s' = tl (posts_order s) @ [url]
         \<and> posts s' (hd (posts_order s)) = None" by blast
qed

theorem dedup_cache_invariant_and_fifo_witness:
  "cache_inv (initial\<lparr>users := [follower_of_b]\<rparr>)
   \<and> getlist untagged_post ''\"tags\":'' \<noteq> None
   \<and> (\<exists>s1 e1. process_update Some id (initial\<lparr>users := [follower_of_b]\<rparr>) untagged_post
                 = Some (s1, e1) \<and> cache_inv s1)
   \<and> posts (initial\<lparr>users := [follower_of_b]\<rparr>) = Map.empty
   \<and> posts_order (initial\<lparr>users := [follower_of_b]\<rparr>) = []
   \<and> map uri_of many_posts = map Some many_ids
   \<and> distinct many_ids
   \<and> tag_lists_return many_posts
   \<and> length many_ids = 1001
   \<and> (\<exists>sn. run Some id (initial\<lparr>users := [follower_of_b]\<rparr>) many_posts = Some sn
            \<and> cache_inv sn \<and> posts_order sn = drop 1 many_ids
            \<and> dom (posts sn) = set (drop 1 many_ids)
            \<and> length (posts_order sn) = 1000)
   \<and> uri_of tagged_post = Some uri_1
   \<and> posts seen_uri_1 uri_1 \<noteq> None
   \<and> (\<exists>s' e. process_update Some id seen_uri_1 tagged_post = Some (s', e)
              \<and> posts_order s' = [uri_1] \<and> posts s' = posts seen_uri_1)
   \<and> cache_inv full_cache
   \<and> int (length (posts_order full_cache)) = DUPLICATE_HISTORY_LENGTH
   \<and> uri_of untagged_post = Some uri_1
   \<and> posts full_cache uri_1 = None
   \<and> (\<exists>s' e. process_update Some id full_cache untagged_post = Some (s', e)
              \<and> posts_order s' = tl old_ids @ [uri_1] \<and> posts s' (hd old_ids) = None)"
proof -
  let ?s0 = "initial\<lparr>users := [follower_of_b]\<rparr>"
  note thm1 = dedup_cache_invariant_and_fifo[where decode = Some and lower = id]
  have g1: "getlist untagged_post ''\"tags\":'' \<noteq> None" by code_simp
  have u1: "uri_of untagged_post = Some uri_1" by code_simp
  have u3: "uri_of tagged_post = Some uri_1" by code_simp
  have i0: "cache_inv ?s0"
    by (simp add: cache_inv_def initial_def DUPLICATE_HISTORY_LENGTH_def)
  have e0: "posts ?s0 = Map.empty" "posts_order ?s0 = []" by (simp_all add: initial_def)
  \<comment> \<open>(1) one call returns and keeps the invariant\<close>
  from thm1[where s = ?s0 and data = untagged_post] i0 g1
  have c1: "\<exists>s1 e1. process_update Some id ?s0 untagged_post = Some (s1, e1)
      \<and> cache_inv s1" by blast
  \<comment> \<open>(3) 1001 distinct ids from the empty cache: the first one is evicted\<close>
  note m = many_ids_props
  have k: "length many_ids - nat DUPLICATE_HISTORY_LENGTH = 1"
    "min (length many_ids) (nat DUPLICATE_HISTORY_LENGTH) = 1000"
    by (simp_all add: m(1) DUPLICATE_HISTORY_LENGTH_def)
  from thm1[where ?s0.0 = ?s0 and datas = many_posts and ids = many_ids] e0 m(2,3,4)
  have "\<exists>sn. run Some id ?s0 many_posts = Some sn
         \<and> cache_inv sn
         \<and> posts_order sn = drop (length many_ids - nat DUPLICATE_HISTORY_LENGTH) many_ids
         \<and> dom (posts sn) = set (drop (length many_ids - nat DUPLICATE_HISTORY_LENGTH) many_ids)
         \<and> length (posts_order sn) = min (length many_ids) (nat DUPLICATE_HISTORY_LENGTH)"
    by blast
  then have c2: "\<exists>sn. run Some id ?s0 many_posts = Some sn
            \<and> cache_inv sn \<and> posts_order sn = drop 1 many_ids
            \<and> dom (posts sn) = set (drop 1 many_ids)
            \<and> length (posts_order sn) = 1000"
    unfolding k .
  \<comment> \<open>(4) an id that is in the cache\<close>
  have seen: "posts seen_uri_1 uri_1 \<noteq> None" by (simp add: seen_uri_1_def)
  from thm1[where s = seen_uri_1 and data = tagged_post and url = uri_1] u3 seen
  have "\<exists>s' e. process_update Some id seen_uri_1 tagged_post = Some (s', e)
      \<and> posts_order s' = posts_order seen_uri_1 \<and> posts s' = posts seen_uri_1" by blast
  moreover have "posts_order seen_uri_1 = [uri_1]" by (simp add: seen_uri_1_def)
  ultimately have c3: "\<exists>s' e. process_update Some id seen_uri_1 tagged_post = Some (s', e)
      \<and> posts_order s' = [uri_1] \<and> posts s' = posts seen_uri_1" by simp
  \<comment> \<open>(5) a fresh id into the full cache\<close>
  have full: "int (length (posts_order full_cache)) = DUPLICATE_HISTORY_LENGTH"
    using old_ids_props(1) by (simp add: full_cache_def DUPLICATE_HISTORY_LENGTH_def)
  have fresh: "posts full_cache uri_1 = None"
    using old_ids_props(3) by (simp add: full_cache_def)
  from thm1[where s = full_cache and data = untagged_post and url = uri_1]
    full_cache_inv full u1 fresh g1
  have "\<exists>s' e. process_update Some id full_cache untagged_post = Some (s', e)
      \<and> posts_order s' = tl (posts_order full_cache) @ [uri_1]
      \<and> posts s' (hd (posts_order full_cache)) = None" by blast
  moreover have "posts_order full_cache = old_ids" by (simp add: full_cache_def)
  ultimately have c4: "\<exists>s' e. process_update Some id full_cache untagged_post = Some (s', e)
      \<and> posts_order s' = tl old_ids @ [uri_1] \<and> posts s' (hd old_ids) = None" by simp
  from i0 g1 c1 e0 m(3) m(2) m(4) m(1) c2 u3 seen c3 full_cache_inv full u1 fresh c4
  show ?thesis by (intro conjI)
qed

end
